theory Spec2Isabelle
  imports
    Main
    "HOL-Library.Char_ord"
    "HOL-Library.List_Lexorder"
    "HOL-Library.Sublist"
    "HOL-Library.AList"
begin

section \<open>Shallow embedding of \<open>leveldb/convenience.py\<close>\<close>

text \<open>
  The module is Python 2: keys, values and prefixes are byte strings (\<open>str\<close>), modelled
  as \<^typ>\<open>string\<close> (a list of 8-bit characters).  Python compares byte strings
  lexicographically byte by byte, a proper prefix being smaller; this is the order on
  lists of \<open>List_Lexorder\<close> over the byte order on characters of \<open>Char_ord\<close>.

  Exceptions are values of the type \<open>error\<close>; a function that may raise returns
  \<open>error + 'a\<close> with \<open>Inl\<close> for the exception.  \<open>AlreadyClosed\<close> is the
  \<open>Exception("already closed")\<close> of \<open>addReferrer\<close>.  Two values are not Python
  exceptions of the module: \<open>InvalidCursor\<close>, a read or a step of a native cursor that
  is not positioned on an entry, which the engine leaves undefined; and
  \<open>DeadReference\<close>, a method call through a reference to a destroyed object, which
  cannot happen in Python.
\<close>

datatype error =
    StopIteration
  | ValueError
  | AttributeError
  | TypeError
  | AlreadyClosed
  | InvalidCursor
  | DeadReference

subsection \<open>Database handle (fields of \<open>DBInterface\<close>)\<close>

text \<open>
  \<open>_impl\<close> is a reference to a \<open>_MemorySafety\<close> guard; references to guards are
  indices into the guard heap defined further below.
\<close>

record DBInterface =
  db_impl :: nat
  db_prefix :: "string option"
  allow_close :: bool
  default_sync :: bool
  default_verify_checksums :: bool
  default_fill_cache :: bool

subsection \<open>Write batches\<close>

text \<open>
  \<open>_puts\<close> is a Python dict, modelled as an association list handled only through
  \<open>AList.update\<close> (item assignment), \<open>AList.delete\<close> (\<open>pop(key, None)\<close>) and
  \<open>map_of\<close> (lookup).  \<open>_deletes\<close> is a Python set, modelled as a list handled through
  \<open>List.insert\<close> (\<open>add\<close>) and \<open>removeAll\<close> (\<open>discard\<close>).  The flag \<open>_private\<close> is
  \<open>True\<close> exactly for the instances of \<open>_OpaqueWriteBatch\<close> that are not instances of
  its subclass \<open>WriteBatch\<close>.
\<close>

record WriteBatch =
  wb_puts :: "(string \<times> string) list"
  wb_deletes :: "string list"
  wb_private :: bool

definition OpaqueWriteBatch_init :: WriteBatch where
  "OpaqueWriteBatch_init = \<lparr>wb_puts = [], wb_deletes = [], wb_private = True\<rparr>"

definition WriteBatch_init :: WriteBatch where
  "WriteBatch_init = OpaqueWriteBatch_init\<lparr>wb_private := False\<rparr>"

definition clear :: "WriteBatch \<Rightarrow> WriteBatch" where
  "clear self = self\<lparr>wb_puts := [], wb_deletes := []\<rparr>"

definition WriteBatch_put :: "WriteBatch \<Rightarrow> string \<Rightarrow> string \<Rightarrow> WriteBatch" where
  "WriteBatch_put self key val =
     self\<lparr>wb_deletes := removeAll key (wb_deletes self),
          wb_puts := AList.update key val (wb_puts self)\<rparr>"

definition WriteBatch_delete :: "WriteBatch \<Rightarrow> string \<Rightarrow> WriteBatch" where
  "WriteBatch_delete self key =
     self\<lparr>wb_puts := AList.delete key (wb_puts self),
          wb_deletes := List.insert key (wb_deletes self)\<rparr>"

definition newBatch :: "DBInterface \<Rightarrow> WriteBatch" where
  "newBatch self = OpaqueWriteBatch_init"

text \<open>
  \<open>putTo\<close> and \<open>deleteFrom\<close> mutate the batch they are given: the model returns the
  outcome of the call together with the state of that batch object after the call.
\<close>

definition putTo ::
  "DBInterface \<Rightarrow> WriteBatch \<Rightarrow> string \<Rightarrow> string \<Rightarrow> (error + unit) \<times> WriteBatch" where
  "putTo self batch key val =
     (if \<not> wb_private batch then (Inl ValueError, batch)
      else
        (let key = (case db_prefix self of Some pfx \<Rightarrow> pfx @ key | None \<Rightarrow> key)
         in (Inr (),
             batch\<lparr>wb_deletes := removeAll key (wb_deletes batch),
                   wb_puts := AList.update key val (wb_puts batch)\<rparr>)))"

definition deleteFrom ::
  "DBInterface \<Rightarrow> WriteBatch \<Rightarrow> string \<Rightarrow> (error + unit) \<times> WriteBatch" where
  "deleteFrom self batch key =
     (if \<not> wb_private batch then (Inl ValueError, batch)
      else
        (let key = (case db_prefix self of Some pfx \<Rightarrow> pfx @ key | None \<Rightarrow> key)
         in (Inr (),
             batch\<lparr>wb_puts := AList.delete key (wb_puts batch),
                   wb_deletes := List.insert key (wb_deletes batch)\<rparr>)))"

text \<open>
  A caller's method call on a batch object.  \<open>put\<close> and \<open>delete\<close> are methods of the
  subclass \<open>WriteBatch\<close> only, so on an opaque batch the attribute lookup fails.
  \<open>run_ops\<close> is a caller that performs the calls one after the other and goes on after a
  call that raised (the batch is then in the state the failed call left it in).
\<close>

datatype batch_op =
    Put string string
  | Delete string
  | PutTo DBInterface string string
  | DeleteFrom DBInterface string
  | Clear

fun call_op :: "batch_op \<Rightarrow> WriteBatch \<Rightarrow> (error + unit) \<times> WriteBatch" where
  "call_op (Put k v) b =
     (if wb_private b then (Inl AttributeError, b) else (Inr (), WriteBatch_put b k v))"
| "call_op (Delete k) b =
     (if wb_private b then (Inl AttributeError, b) else (Inr (), WriteBatch_delete b k))"
| "call_op (PutTo db k v) b = putTo db b k v"
| "call_op (DeleteFrom db k) b = deleteFrom db b k"
| "call_op Clear b = (Inr (), clear b)"

fun run_ops :: "batch_op list \<Rightarrow> WriteBatch \<Rightarrow> WriteBatch" where
  "run_ops [] b = b"
| "run_ops (x # xs) b = run_ops xs (snd (call_op x b))"

definition put_keys :: "WriteBatch \<Rightarrow> string set" where
  "put_keys b = fst ` set (wb_puts b)"

definition delete_keys :: "WriteBatch \<Rightarrow> string set" where
  "delete_keys b = set (wb_deletes b)"

definition batch_disjoint :: "WriteBatch \<Rightarrow> bool" where
  "batch_disjoint b \<longleftrightarrow> (\<forall>k \<in> set (map fst (wb_puts b)). k \<notin> set (wb_deletes b))"

text \<open>
  The key a handle reads and writes for a caller's key: the handle's prefix, when it has
  one, is put in front.  The methods of \<open>DBInterface\<close> write this translation out in
  line; the function is used below to state properties only.
\<close>

definition db_key :: "DBInterface \<Rightarrow> string \<Rightarrow> string" where
  "db_key self key = (case db_prefix self of Some pfx \<Rightarrow> pfx @ key | None \<Rightarrow> key)"

text \<open>
  \<open>write\<close> works on two batch objects when it builds a translated copy, so batches are
  objects in a store here: a list of batch states, a reference being an index.  The
  result is the pair of arguments handed to the engine's \<open>write\<close> (the reference of the
  batch forwarded, and \<open>sync\<close>) together with the store after the call.  The engine call
  itself (\<open>self._impl.ref.write\<close>) is outside the module, and the guard of the handle
  is taken to be open.  The two \<open>for\<close> loops run over the items of the dict and the
  elements of the set in the order of their lists.  A reference to a batch is an index
  below the length of the store.
\<close>

definition DB_write ::
  "DBInterface \<Rightarrow> nat \<Rightarrow> bool option \<Rightarrow> WriteBatch list \<Rightarrow> (nat \<times> bool) \<times> WriteBatch list" where
  "DB_write self batch sync bs =
     (let sync = (case sync of None \<Rightarrow> default_sync self | Some s \<Rightarrow> s)
      in case db_prefix self of
           None \<Rightarrow> ((batch, sync), bs)
         | Some pfx \<Rightarrow>
             if wb_private (bs ! batch) then ((batch, sync), bs)
             else
               (let unscoped_batch = length bs;
                    bs = bs @ [OpaqueWriteBatch_init];
                    bs = fold (\<lambda>(key, value) bs.
                           bs[unscoped_batch := (bs ! unscoped_batch)
                             \<lparr>wb_puts := AList.update (pfx @ key) value
                                           (wb_puts (bs ! unscoped_batch))\<rparr>])
                         (wb_puts (bs ! batch)) bs;
                    bs = fold (\<lambda>key bs.
                           bs[unscoped_batch := (bs ! unscoped_batch)
                             \<lparr>wb_deletes := List.insert (pfx @ key)
                                              (wb_deletes (bs ! unscoped_batch))\<rparr>])
                         (wb_deletes (bs ! batch)) bs
                in ((unscoped_batch, sync), bs)))"

subsection \<open>The native cursor\<close>

text \<open>
  Modelled from the spec: the engine's cursor (section 6: \<open>new_iterator\<close>, and on the
  cursor \<open>seek(key)\<close>, \<open>seekFirst()\<close>, \<open>seekLast()\<close>, \<open>next()\<close>, \<open>prev()\<close>, \<open>valid()\<close>,
  \<open>key()\<close>, \<open>value()\<close>) is outside the module.  It runs over the entries of the store
  in ascending key order and is either positioned on an entry or invalid; \<open>seek(key)\<close>
  positions it on the first entry whose key is at least \<open>key\<close> (section 4.2),
  \<open>next()\<close> and \<open>prev()\<close> move it by one entry and leave it invalid when they step
  off either end.  \<open>key()\<close> and \<open>value()\<close> are "undefined unless \<open>valid()\<close> is true":
  reading or stepping an invalid cursor is the error \<open>InvalidCursor\<close> here.
\<close>

record cursor =
  c_entries :: "(string \<times> string) list"
  c_pos :: "nat option"

definition store_sorted :: "(string \<times> string) list \<Rightarrow> bool" where
  "store_sorted es \<longleftrightarrow> sorted_wrt (<) (map fst es)"

definition c_valid :: "cursor \<Rightarrow> bool" where
  "c_valid c = (case c_pos c of None \<Rightarrow> False | Some i \<Rightarrow> i < length (c_entries c))"

fun first_ge :: "string \<Rightarrow> (string \<times> string) list \<Rightarrow> nat option" where
  "first_ge k [] = None"
| "first_ge k (e # es) = (if k \<le> fst e then Some 0 else map_option Suc (first_ge k es))"

definition c_seek :: "string \<Rightarrow> cursor \<Rightarrow> cursor" where
  "c_seek k c = c\<lparr>c_pos := first_ge k (c_entries c)\<rparr>"

definition c_seekFirst :: "cursor \<Rightarrow> cursor" where
  "c_seekFirst c = c\<lparr>c_pos := (if c_entries c = [] then None else Some 0)\<rparr>"

definition c_seekLast :: "cursor \<Rightarrow> cursor" where
  "c_seekLast c =
     c\<lparr>c_pos := (if c_entries c = [] then None else Some (length (c_entries c) - 1))\<rparr>"

definition c_next :: "cursor \<Rightarrow> error + cursor" where
  "c_next c =
     (case c_pos c of
        None \<Rightarrow> Inl InvalidCursor
      | Some i \<Rightarrow>
          if i < length (c_entries c)
          then Inr (c\<lparr>c_pos := (if Suc i < length (c_entries c) then Some (Suc i) else None)\<rparr>)
          else Inl InvalidCursor)"

definition c_prev :: "cursor \<Rightarrow> error + cursor" where
  "c_prev c =
     (case c_pos c of
        None \<Rightarrow> Inl InvalidCursor
      | Some i \<Rightarrow>
          if i < length (c_entries c)
          then Inr (c\<lparr>c_pos := (if i = 0 then None else Some (i - 1))\<rparr>)
          else Inl InvalidCursor)"

definition c_key :: "cursor \<Rightarrow> error + string" where
  "c_key c =
     (case c_pos c of
        None \<Rightarrow> Inl InvalidCursor
      | Some i \<Rightarrow> if i < length (c_entries c) then Inr (fst (c_entries c ! i)) else Inl InvalidCursor)"

definition c_val :: "cursor \<Rightarrow> error + string" where
  "c_val c =
     (case c_pos c of
        None \<Rightarrow> Inl InvalidCursor
      | Some i \<Rightarrow> if i < length (c_entries c) then Inr (snd (c_entries c ! i)) else Inl InvalidCursor)"

subsection \<open>Python string functions used by \<open>seekLast\<close>\<close>

text \<open>
  \<open>s.encode('hex')\<close>: two lower-case hexadecimal digits per byte.
\<close>

definition hexdigit :: "nat \<Rightarrow> char" where
  "hexdigit d = ''0123456789abcdef'' ! d"

fun encode_hex :: "string \<Rightarrow> string" where
  "encode_hex [] = []"
| "encode_hex (c # cs) =
     hexdigit (of_char c div 16) # hexdigit (of_char c mod 16) # encode_hex cs"

text \<open>
  \<open>long(s, 16)\<close> on a string of hexadecimal digits; it raises \<open>ValueError\<close> on the empty
  string and on any other character.  (Signs, blanks and a \<open>0x\<close> prefix, which Python
  accepts too, do not occur in the output of \<open>encode('hex')\<close> and are not modelled.)
\<close>

definition digit_val :: "char \<Rightarrow> nat option" where
  "digit_val c =
     (let n = of_char c :: nat
      in if 48 \<le> n \<and> n \<le> 57 then Some (n - 48)
         else if 97 \<le> n \<and> n \<le> 102 then Some (n - 87)
         else if 65 \<le> n \<and> n \<le> 70 then Some (n - 55)
         else None)"

fun long16_acc :: "int \<Rightarrow> string \<Rightarrow> error + int" where
  "long16_acc acc [] = Inr acc"
| "long16_acc acc (c # cs) =
     (case digit_val c of
        None \<Rightarrow> Inl ValueError
      | Some d \<Rightarrow> long16_acc (16 * acc + int d) cs)"

definition long16 :: "string \<Rightarrow> error + int" where
  "long16 s = (if s = [] then Inl ValueError else long16_acc 0 s)"

text \<open>
  \<open>hex(n)\<close> of a Python 2 \<open>long\<close>: \<open>0x\<close>, the digits without leading zeros, and the
  suffix \<open>L\<close>; a minus sign in front for a negative number.
\<close>

function hex_digits :: "nat \<Rightarrow> string" where
  "hex_digits n = (if n < 16 then [hexdigit n] else hex_digits (n div 16) @ [hexdigit (n mod 16)])"
  by pat_completeness auto
termination
  by (relation "measure (\<lambda>n. n)") auto

declare hex_digits.simps [simp del]

definition hex_long :: "int \<Rightarrow> string" where
  "hex_long n =
     (if n < 0 then ''-0x'' @ hex_digits (nat (- n)) @ ''L''
      else ''0x'' @ hex_digits (nat n) @ ''L'')"

definition rstrip :: "string \<Rightarrow> string \<Rightarrow> string" where
  "rstrip s chars = rev (dropWhile (\<lambda>c. c \<in> set chars) (rev s))"

definition rjust :: "string \<Rightarrow> nat \<Rightarrow> char \<Rightarrow> string" where
  "rjust s width fillchar = replicate (width - length s) fillchar @ s"

text \<open>
  \<open>s.decode('hex')\<close>: one byte per pair of hexadecimal digits; \<open>TypeError\<close> on a string
  of odd length or with another character.
\<close>

fun decode_hex :: "string \<Rightarrow> error + string" where
  "decode_hex [] = Inr []"
| "decode_hex [a] = Inl TypeError"
| "decode_hex (a # b # cs) =
     (case (digit_val a, digit_val b) of
        (Some x, Some y) \<Rightarrow>
          (case decode_hex cs of
             Inl e \<Rightarrow> Inl e
           | Inr r \<Rightarrow> Inr (char_of (16 * x + y) # r))
      | _ \<Rightarrow> Inl TypeError)"

subsection \<open>Iterator\<close>

text \<open>
  \<open>_impl\<close> is the iterator's own \<open>_MemorySafety\<close> guard, whose \<open>ref\<close> is the native
  cursor.  In the heap of guards further below \<open>it_impl\<close> is a reference to that guard
  (type \<open>nat Iterator\<close>).  The methods that move and read the cursor are modelled on an
  iterator whose guard is open: there \<open>self._impl.ref\<close> is the native cursor, and
  \<open>it_impl\<close> holds the state of that cursor (type \<open>cursor Iterator\<close>).
\<close>

record 'impl Iterator =
  it_impl :: 'impl
  it_prefix :: "string option"
  it_keys_only :: bool

text \<open>What \<open>next()\<close> returns: a \<open>Row\<close>, or the bare key of a keys-only iterator.\<close>

datatype item = Row string string | Key string

definition Iterator_valid :: "cursor Iterator \<Rightarrow> error + bool" where
  "Iterator_valid self =
     (let ref = it_impl self; v = c_valid ref
      in case it_prefix self of
           None \<Rightarrow> Inr v
         | Some pfx \<Rightarrow>
             if \<not> v then Inr v
             else (case c_key ref of
                     Inl e \<Rightarrow> Inl e
                   | Inr key \<Rightarrow> Inr (take (length pfx) key = pfx)))"

definition Iterator_seekFirst :: "cursor Iterator \<Rightarrow> cursor Iterator" where
  "Iterator_seekFirst self =
     (case it_prefix self of
        Some pfx \<Rightarrow> self\<lparr>it_impl := c_seek pfx (it_impl self)\<rparr>
      | None \<Rightarrow> self\<lparr>it_impl := c_seekFirst (it_impl self)\<rparr>)"

text \<open>
  The four lines of \<open>seekLast\<close> that compute \<open>next_prefix\<close> from \<open>prefix\<close>.
\<close>

definition next_prefix :: "string \<Rightarrow> error + string" where
  "next_prefix pfx =
     (let hex_prefix = encode_hex pfx
      in case long16 hex_prefix of
           Inl e \<Rightarrow> Inl e
         | Inr n \<Rightarrow>
             (let np = rstrip (drop 2 (hex_long (n + 1))) ''L'';
                  np = rjust np (length hex_prefix) CHR ''0''
              in case decode_hex np of
                   Inl e \<Rightarrow> Inl e
                 | Inr d \<Rightarrow> Inr (rstrip d [CHR 0x00])))"

definition Iterator_seekLast :: "cursor Iterator \<Rightarrow> error + cursor Iterator" where
  "Iterator_seekLast self =
     (let ref = it_impl self
      in case it_prefix self of
           None \<Rightarrow> Inr (self\<lparr>it_impl := c_seekLast ref\<rparr>)
         | Some pfx \<Rightarrow>
             if pfx = replicate (length pfx) (CHR 0xFF)
             then Inr (self\<lparr>it_impl := c_seekLast ref\<rparr>)
             else (case next_prefix pfx of
                     Inl e \<Rightarrow> Inl e
                   | Inr np \<Rightarrow>
                       (let ref = c_seek np ref
                        in if c_valid ref
                           then (case c_prev ref of
                                   Inl e \<Rightarrow> Inl e
                                 | Inr ref \<Rightarrow> Inr (self\<lparr>it_impl := ref\<rparr>))
                           else Inr (self\<lparr>it_impl := c_seekLast ref\<rparr>))))"

definition Iterator_seek :: "cursor Iterator \<Rightarrow> string \<Rightarrow> cursor Iterator" where
  "Iterator_seek self key =
     (let key = (case it_prefix self of Some pfx \<Rightarrow> pfx @ key | None \<Rightarrow> key)
      in self\<lparr>it_impl := c_seek key (it_impl self)\<rparr>)"

definition Iterator_key :: "cursor Iterator \<Rightarrow> error + string" where
  "Iterator_key self =
     (case c_key (it_impl self) of
        Inl e \<Rightarrow> Inl e
      | Inr key \<Rightarrow>
          (case it_prefix self of
             Some pfx \<Rightarrow> Inr (drop (length pfx) key)
           | None \<Rightarrow> Inr key))"

definition Iterator_value :: "cursor Iterator \<Rightarrow> error + string" where
  "Iterator_value self = c_val (it_impl self)"

definition Iterator_next :: "cursor Iterator \<Rightarrow> error + item \<times> cursor Iterator" where
  "Iterator_next self =
     (case Iterator_valid self of
        Inl e \<Rightarrow> Inl e
      | Inr v \<Rightarrow>
          if \<not> v then Inl StopIteration
          else
            (case (if it_keys_only self
                   then (case Iterator_key self of Inl e \<Rightarrow> Inl e | Inr k \<Rightarrow> Inr (Key k))
                   else (case Iterator_key self of
                           Inl e \<Rightarrow> Inl e
                         | Inr k \<Rightarrow>
                             (case Iterator_value self of
                                Inl e \<Rightarrow> Inl e
                              | Inr x \<Rightarrow> Inr (Row k x)))) of
               Inl e \<Rightarrow> Inl e
             | Inr rv \<Rightarrow>
                 (case c_next (it_impl self) of
                    Inl e \<Rightarrow> Inl e
                  | Inr ref \<Rightarrow> Inr (rv, self\<lparr>it_impl := ref\<rparr>))))"

definition remaining :: "cursor \<Rightarrow> nat" where
  "remaining c = (case c_pos c of None \<Rightarrow> 0 | Some i \<Rightarrow> length (c_entries c) - i)"

lemma Iterator_next_remaining:
  "Iterator_next self = Inr (rv, self') \<Longrightarrow> remaining (it_impl self') < remaining (it_impl self)"
  by (auto simp: Iterator_next_def c_next_def remaining_def
      split: sum.splits if_splits option.splits)

text \<open>
  A caller that calls \<open>next()\<close> until it raises (as a \<open>for\<close> loop over the iterator
  does): the items returned, the exception that ended the calls, and the iterator left.
\<close>

function next_all :: "cursor Iterator \<Rightarrow> item list \<times> error \<times> cursor Iterator" where
  "next_all self =
     (case Iterator_next self of
        Inl e \<Rightarrow> ([], e, self)
      | Inr (rv, self') \<Rightarrow>
          (case next_all self' of (rvs, e, final) \<Rightarrow> (rv # rvs, e, final)))"
  by pat_completeness auto
termination
  by (relation "measure (\<lambda>self. remaining (it_impl self))")
     (auto simp: Iterator_next_remaining)

declare next_all.simps [simp del]

text \<open>
  \<open>range\<close> is a generator.  Its result here is the list of the items it yields and the
  exception that ends it, if one does (\<open>None\<close>: it is exhausted or has left the loop by
  \<open>break\<close>).  \<open>range_start\<close> is the positioning before the loop, \<open>range_loop\<close> the
  \<open>for\<close> loop, which calls \<open>next()\<close> and ends on \<open>StopIteration\<close>.  \<open>row.key\<close> exists
  on a \<open>Row\<close> only: on the bare key of a keys-only iterator it raises \<open>AttributeError\<close>.
\<close>

definition range_start ::
  "cursor Iterator \<Rightarrow> string option \<Rightarrow> bool \<Rightarrow> error + cursor Iterator" where
  "range_start self start_key start_inclusive =
     (case start_key of
        Some sk \<Rightarrow>
          (let self = Iterator_seek self sk
           in if \<not> start_inclusive
              then (case Iterator_key self of
                      Inl e \<Rightarrow> Inl e
                    | Inr k \<Rightarrow>
                        if k = sk
                        then (case c_next (it_impl self) of
                                Inl e \<Rightarrow> Inl e
                              | Inr ref \<Rightarrow> Inr (self\<lparr>it_impl := ref\<rparr>))
                        else Inr self)
              else Inr self)
      | None \<Rightarrow> Inr (Iterator_seekFirst self))"

definition row_key :: "item \<Rightarrow> error + string" where
  "row_key row = (case row of Row k v \<Rightarrow> Inr k | Key k \<Rightarrow> Inl AttributeError)"

function range_loop ::
  "cursor Iterator \<Rightarrow> string option \<Rightarrow> bool \<Rightarrow> item list \<times> error option" where
  "range_loop self end_key end_inclusive =
     (case Iterator_next self of
        Inl e \<Rightarrow> ([], if e = StopIteration then None else Some e)
      | Inr (row, self') \<Rightarrow>
          (case end_key of
             None \<Rightarrow>
               (case range_loop self' end_key end_inclusive of (rows, e) \<Rightarrow> (row # rows, e))
           | Some ek \<Rightarrow>
               (case row_key row of
                  Inl e \<Rightarrow> ([], Some e)
                | Inr k \<Rightarrow>
                    if k > ek \<or> (\<not> end_inclusive \<and> k = ek) then ([], None)
                    else (case range_loop self' end_key end_inclusive of
                            (rows, e) \<Rightarrow> (row # rows, e)))))"
  by pat_completeness auto
termination
  by (relation "measure (\<lambda>(self, end_key, end_inclusive). remaining (it_impl self))")
     (auto simp: Iterator_next_remaining)

declare range_loop.simps [simp del]

definition Iterator_range ::
  "cursor Iterator \<Rightarrow> string option \<Rightarrow> string option \<Rightarrow> bool \<Rightarrow> bool
     \<Rightarrow> item list \<times> error option" where
  "Iterator_range self start_key end_key start_inclusive end_inclusive =
     (case range_start self start_key start_inclusive of
        Inl e \<Rightarrow> ([], Some e)
      | Inr self \<Rightarrow> range_loop self end_key end_inclusive)"

subsection \<open>The successor of a prefix, in the words of the specification\<close>

text \<open>
  Section 4.2 of the specification: the successor of a prefix is found "by treating the
  prefix bytes as a big-endian integer and adding one, re-padded to the same byte
  length, with trailing zero bytes stripped after increment".  \<open>be_int\<close> reads a byte
  string as a big-endian integer, \<open>be_bytes l n\<close> writes \<open>n\<close> on \<open>l\<close> bytes.  These
  definitions follow the specification, not the source; they are compared with
  \<open>next_prefix\<close> below.
\<close>

definition be_int :: "string \<Rightarrow> nat" where
  "be_int s = foldl (\<lambda>a c. a * 256 + of_char c) 0 s"

fun be_bytes :: "nat \<Rightarrow> nat \<Rightarrow> string" where
  "be_bytes 0 n = []"
| "be_bytes (Suc l) n = char_of (n div 256 ^ l) # be_bytes l n"

definition spec_successor :: "string \<Rightarrow> string" where
  "spec_successor p = rstrip (be_bytes (length p) (be_int p + 1)) [CHR 0x00]"

subsection \<open>Notions used to state the properties of iteration\<close>

text \<open>
  \<open>fhex w n\<close>: the \<open>w\<close> lowest hexadecimal digits of \<open>n\<close>, most significant first.
  \<open>pos_of es i\<close>: the cursor position on the entry of index \<open>i\<close>, invalid from the end
  of the store on.  \<open>pfx_of\<close>: the prefix of an iterator, empty when it has none.
  \<open>at_pos it es i\<close>: the iterator \<open>it\<close> with its cursor on the entry \<open>i\<close> of the store
  \<open>es\<close>.  \<open>item_of\<close>: what \<open>next()\<close> returns on an entry.  \<open>past_end\<close>: the test that
  leaves the loop of \<open>range\<close>.  \<open>last_pos es n\<close>: the index of the last of the first
  \<open>n\<close> entries, and no entry at all when \<open>n\<close> is zero.
\<close>

fun fhex :: "nat \<Rightarrow> nat \<Rightarrow> string" where
  "fhex 0 n = []"
| "fhex (Suc w) n = hexdigit ((n div 16 ^ w) mod 16) # fhex w n"

definition pos_of :: "(string \<times> string) list \<Rightarrow> nat \<Rightarrow> nat option" where
  "pos_of es i = (if i < length es then Some i else None)"

definition pfx_of :: "cursor Iterator \<Rightarrow> string" where
  "pfx_of it = (case it_prefix it of None \<Rightarrow> [] | Some p \<Rightarrow> p)"

definition at_pos :: "cursor Iterator \<Rightarrow> (string \<times> string) list \<Rightarrow> nat \<Rightarrow> cursor Iterator" where
  "at_pos it es i = it\<lparr>it_impl := \<lparr>c_entries = es, c_pos = pos_of es i\<rparr>\<rparr>"

definition item_of :: "cursor Iterator \<Rightarrow> string \<times> string \<Rightarrow> item" where
  "item_of it e =
     (if it_keys_only it then Key (drop (length (pfx_of it)) (fst e))
      else Row (drop (length (pfx_of it)) (fst e)) (snd e))"

definition past_end :: "cursor Iterator \<Rightarrow> string option \<Rightarrow> bool \<Rightarrow> string \<times> string \<Rightarrow> bool" where
  "past_end it end_key end_inclusive e =
     (case end_key of
        None \<Rightarrow> False
      | Some ek \<Rightarrow>
          drop (length (pfx_of it)) (fst e) > ek
          \<or> (\<not> end_inclusive \<and> drop (length (pfx_of it)) (fst e) = ek))"

definition last_pos :: "(string \<times> string) list \<Rightarrow> nat \<Rightarrow> nat" where
  "last_pos es n = (if n = 0 then length es else n - 1)"

text \<open>
  The bounds of \<open>range\<close> as the specification states them, on the key as the caller sees
  it (the prefix of the iterator taken off): from \<open>start_key\<close>, itself included or not,
  to \<open>end_key\<close>, itself included or not; an absent bound does not restrict.
\<close>

definition in_range ::
  "cursor Iterator \<Rightarrow> string option \<Rightarrow> string option \<Rightarrow> bool \<Rightarrow> bool \<Rightarrow> string \<times> string \<Rightarrow> bool" where
  "in_range it start_key end_key start_inclusive end_inclusive e \<longleftrightarrow>
     prefix (pfx_of it) (fst e)
     \<and> (case start_key of
          None \<Rightarrow> True
        | Some sk \<Rightarrow>
            if start_inclusive then sk \<le> drop (length (pfx_of it)) (fst e)
            else sk < drop (length (pfx_of it)) (fst e))
     \<and> (case end_key of
          None \<Rightarrow> True
        | Some ek \<Rightarrow>
            if end_inclusive then drop (length (pfx_of it)) (fst e) \<le> ek
            else drop (length (pfx_of it)) (fst e) < ek)"

subsection \<open>Resource guards (\<open>_MemorySafety\<close>) on a heap\<close>

text \<open>
  Guards are mutable objects that refer to one another and are shared between handles,
  so they live in an explicit heap: \<open>objs\<close> lists the guard objects, a reference to a
  guard being its index.  An entry \<open>None\<close> is an object that has been destroyed: a weak
  reference to it is dead.  \<open>g_ref\<close> is the field \<open>ref\<close>, the native resource owned
  (native resources are identified by numbers), and \<open>g_referrers\<close> the field
  \<open>_referrers\<close>: the references held (weakly) by the \<open>WeakValueDictionary\<close>, or
  \<open>None\<close> once the guard has been closed.  \<open>released\<close> logs, in order, every native
  resource on which the native \<open>close()\<close> has been called; the native \<open>close()\<close> is
  taken to return normally.  \<open>fresh\<close> is the next native resource the engine hands out.

  A method is only ever called on a live object.  For a reference that is not live the
  model leaves the heap as it is (\<open>close\<close>) or reports \<open>DeadReference\<close>.
\<close>

record guard =
  g_ref :: "nat option"
  g_referrers :: "nat list option"

record heap =
  objs :: "guard option list"
  released :: "nat list"
  fresh :: nat

definition guard_at :: "heap \<Rightarrow> nat \<Rightarrow> guard option" where
  "guard_at h g = (if g < length (objs h) then objs h ! g else None)"

definition store :: "nat \<Rightarrow> guard \<Rightarrow> heap \<Rightarrow> heap" where
  "store g G h = h\<lparr>objs := (objs h)[g := Some G]\<rparr>"

definition native_close :: "nat \<Rightarrow> heap \<Rightarrow> heap" where
  "native_close r h = h\<lparr>released := released h @ [r]\<rparr>"

text \<open>
  \<open>close\<close>: both fields are cleared first, then every referrer that is still alive is
  closed in the order of \<open>valuerefs()\<close>, then the native resource captured is released.
  \<open>close_all\<close> is the \<open>for\<close> loop over the weak references.
\<close>

function close :: "nat \<Rightarrow> heap \<Rightarrow> heap"
  and close_all :: "nat list \<Rightarrow> heap \<Rightarrow> heap" where
  "close self h =
     (case guard_at h self of
        None \<Rightarrow> h
      | Some G \<Rightarrow>
          (let h1 = store self (G\<lparr>g_ref := None, g_referrers := None\<rparr>) h;
               h2 = (case g_referrers G of None \<Rightarrow> h1 | Some rs \<Rightarrow> close_all rs h1)
           in case g_ref G of None \<Rightarrow> h2 | Some r \<Rightarrow> native_close r h2))"
| "close_all [] h = h"
| "close_all (referrer # rest) h =
     close_all rest (case guard_at h referrer of None \<Rightarrow> h | Some _ \<Rightarrow> close referrer h)"
  by pat_completeness auto


text \<open>
  Termination: every call of \<open>close\<close> that enters the loop has cleared the field
  \<open>_referrers\<close> of one more guard, and no call ever sets it again.
\<close>

definition is_open :: "guard option \<Rightarrow> bool" where
  "is_open ob = (case ob of None \<Rightarrow> False | Some G \<Rightarrow> g_referrers G \<noteq> None)"

definition open_count :: "heap \<Rightarrow> nat" where
  "open_count h = length (filter is_open (objs h))"

lemma filter_update_le:
  "\<not> P y \<Longrightarrow> length (filter P (xs[i := y])) \<le> length (filter P xs)"
proof (induction xs arbitrary: i)
  case Nil
  then show ?case by simp
next
  case (Cons x xs)
  then show ?case by (cases i) (auto simp: le_SucI)
qed

lemma filter_update_less:
  "\<not> P y \<Longrightarrow> i < length xs \<Longrightarrow> P (xs ! i) \<Longrightarrow>
   length (filter P (xs[i := y])) < length (filter P xs)"
proof (induction xs arbitrary: i)
  case Nil
  then show ?case by simp
next
  case (Cons x xs)
  show ?case
  proof (cases i)
    case 0
    with Cons.prems show ?thesis by simp
  next
    case (Suc j)
    with Cons.prems Cons.IH [of j] show ?thesis by auto
  qed
qed

lemma open_count_store_le:
  "g_referrers G = None \<Longrightarrow> open_count (store g G h) \<le> open_count h"
  by (simp add: open_count_def store_def filter_update_le is_open_def)

lemma open_count_store_less:
  "g_referrers G' = None \<Longrightarrow> guard_at h g = Some G \<Longrightarrow> g_referrers G = Some rs \<Longrightarrow>
   open_count (store g G' h) < open_count h"
  unfolding open_count_def store_def
  by (auto simp: guard_at_def is_open_def split: if_splits intro!: filter_update_less)

lemma open_count_native_close: "open_count (native_close r h) = open_count h"
  by (simp add: open_count_def native_close_def)

lemma close_open_count_partial:
  "close_close_all_dom (Inl (g, h)) \<Longrightarrow> open_count (close g h) \<le> open_count h"
  "close_close_all_dom (Inr (ds, h)) \<Longrightarrow> open_count (close_all ds h) \<le> open_count h"
proof (induct g h and ds h rule: close_close_all.pinduct)
  case (1 self h)
  show ?case
  proof (cases "guard_at h self")
    case None
    then show ?thesis using 1(1) by (simp add: close.psimps)
  next
    case (Some G)
    let ?h1 = "store self (G\<lparr>g_ref := None, g_referrers := None\<rparr>) h"
    let ?h2 = "case g_referrers G of None \<Rightarrow> ?h1 | Some rs \<Rightarrow> close_all rs ?h1"
    have a: "open_count ?h1 \<le> open_count h"
      by (simp add: open_count_store_le)
    have b: "open_count ?h2 \<le> open_count ?h1"
    proof (cases "g_referrers G")
      case None
      then show ?thesis by simp
    next
      case (Some rs)
      then show ?thesis using 1(2) [OF \<open>guard_at h self = Some G\<close> refl Some] by simp
    qed
    have c: "close self h = (case g_ref G of None \<Rightarrow> ?h2 | Some r \<Rightarrow> native_close r ?h2)"
      using 1(1) Some by (simp add: close.psimps Let_def)
    show ?thesis
      using a b by (simp add: c open_count_native_close split: option.splits)
  qed
next
  case (2 h)
  then show ?case by (simp add: close_all.psimps)
next
  case (3 referrer rest h)
  let ?h' = "case guard_at h referrer of None \<Rightarrow> h | Some _ \<Rightarrow> close referrer h"
  have a: "open_count ?h' \<le> open_count h"
    using 3(2) by (cases "guard_at h referrer") simp_all
  have b: "open_count (close_all rest ?h') \<le> open_count ?h'"
    using 3(3) by simp
  show ?case
    using a b 3(1) by (simp add: close_all.psimps)
qed

termination close
proof (relation "inv_image (less_than <*lex*> less_than)
    (\<lambda>x. case x of Inl (g, h) \<Rightarrow> (open_count h, 0)
                  | Inr (ds, h) \<Rightarrow> (open_count h, Suc (length ds)))", goal_cases)
  case 1
  show ?case by (intro wf_inv_image wf_lex_prod wf_less_than)
next
  case (2 self h G h1 rs)
  then show ?case by (simp add: open_count_store_less)
next
  case (3 referrer rest h x)
  then show ?case by simp
next
  case (4 referrer rest h)
  then show ?case
    by (cases "guard_at h referrer") (auto dest: close_open_count_partial(1) simp: le_imp_less_Suc)
qed

declare close.simps [simp del]

definition cleared :: "guard \<Rightarrow> guard" where
  "cleared G = G\<lparr>g_ref := None, g_referrers := None\<rparr>"

definition live :: "heap \<Rightarrow> nat \<Rightarrow> bool" where
  "live h g \<longleftrightarrow> guard_at h g \<noteq> None"

definition is_closed :: "heap \<Rightarrow> nat \<Rightarrow> bool" where
  "is_closed h g \<longleftrightarrow>
     (case guard_at h g of None \<Rightarrow> False | Some G \<Rightarrow> g_ref G = None \<and> g_referrers G = None)"

definition owns :: "heap \<Rightarrow> nat \<Rightarrow> nat \<Rightarrow> bool" where
  "owns h g r \<longleftrightarrow> (case guard_at h g of None \<Rightarrow> False | Some G \<Rightarrow> g_ref G = Some r)"

definition sole_owner :: "heap \<Rightarrow> nat \<Rightarrow> nat \<Rightarrow> bool" where
  "sole_owner h g r \<longleftrightarrow> owns h g r \<and> list_all (\<lambda>x. x = g \<or> \<not> owns h x r) [0..<length (objs h)]"

definition no_owner :: "heap \<Rightarrow> nat \<Rightarrow> bool" where
  "no_owner h r \<longleftrightarrow> (\<forall>x. \<not> owns h x r)"

text \<open>
  \<open>__init__\<close> of a guard allocates a new object; \<open>addReferrer\<close> registers a dependent.
\<close>

definition MemorySafety_init :: "nat \<Rightarrow> heap \<Rightarrow> nat \<times> heap" where
  "MemorySafety_init r h =
     (length (objs h), h\<lparr>objs := objs h @ [Some \<lparr>g_ref = Some r, g_referrers = Some []\<rparr>]\<rparr>)"

definition addReferrer :: "nat \<Rightarrow> nat \<Rightarrow> heap \<Rightarrow> error + heap" where
  "addReferrer self referrer h =
     (case guard_at h self of
        None \<Rightarrow> Inl DeadReference
      | Some G \<Rightarrow>
          (case g_referrers G of
             None \<Rightarrow> Inl AlreadyClosed
           | Some rs \<Rightarrow> Inr (store self (G\<lparr>g_referrers := Some (List.insert referrer rs)\<rparr>) h)))"

text \<open>
  Modelled from the spec: the engine primitives \<open>new_iterator\<close> and \<open>new_snapshot\<close>
  (section 6), called here as \<open>impl.ref.iterator(...)\<close> and \<open>impl.ref.snapshot()\<close>, are
  outside the module; each returns a new native sub-resource.
\<close>

definition native_new :: "heap \<Rightarrow> nat \<times> heap" where
  "native_new h = (fresh h, h\<lparr>fresh := Suc (fresh h)\<rparr>)"

definition opt_default :: "'a option \<Rightarrow> 'a \<Rightarrow> 'a" where
  "opt_default x d = (case x of None \<Rightarrow> d | Some v \<Rightarrow> v)"

definition makeDBFromImpl :: "nat \<Rightarrow> bool \<Rightarrow> bool \<Rightarrow> bool \<Rightarrow> heap \<Rightarrow> DBInterface \<times> heap" where
  "makeDBFromImpl impl dsync dverify dfill h =
     (let (g, h1) = MemorySafety_init impl h
      in (\<lparr>db_impl = g, db_prefix = None, allow_close = True, default_sync = dsync,
            default_verify_checksums = dverify, default_fill_cache = dfill\<rparr>, h1))"

definition DB_close :: "DBInterface \<Rightarrow> heap \<Rightarrow> heap" where
  "DB_close self h = (if allow_close self then close (db_impl self) h else h)"

definition scope ::
  "DBInterface \<Rightarrow> string \<Rightarrow> bool option \<Rightarrow> bool option \<Rightarrow> bool option \<Rightarrow> DBInterface" where
  "scope self pfx dsync dverify dfill =
     \<lparr>db_impl = db_impl self,
      db_prefix = Some (case db_prefix self of None \<Rightarrow> pfx | Some orig_prefix \<Rightarrow> orig_prefix @ pfx),
      allow_close = False,
      default_sync = opt_default dsync (default_sync self),
      default_verify_checksums = opt_default dverify (default_verify_checksums self),
      default_fill_cache = opt_default dfill (default_fill_cache self)\<rparr>"

definition DB_snapshot ::
  "DBInterface \<Rightarrow> bool option \<Rightarrow> bool option \<Rightarrow> bool option \<Rightarrow> heap \<Rightarrow> error + DBInterface \<times> heap" where
  "DB_snapshot self dsync dverify dfill h =
     (let impl = db_impl self
      in case guard_at h impl of
           None \<Rightarrow> Inl DeadReference
         | Some G \<Rightarrow>
             (case g_ref G of
                None \<Rightarrow> Inl AttributeError
              | Some r \<Rightarrow>
                  (let (native, h1) = native_new h;
                       (snapshot, h2) = MemorySafety_init native h1
                   in case addReferrer impl snapshot h2 of
                        Inl e \<Rightarrow> Inl e
                      | Inr h3 \<Rightarrow>
                          Inr (\<lparr>db_impl = snapshot, db_prefix = db_prefix self, allow_close = True,
                                default_sync = opt_default dsync (default_sync self),
                                default_verify_checksums =
                                  opt_default dverify (default_verify_checksums self),
                                default_fill_cache = opt_default dfill (default_fill_cache self)\<rparr>,
                               h3))))"

definition iterator_prefix :: "DBInterface \<Rightarrow> string option \<Rightarrow> string option" where
  "iterator_prefix self pfx =
     (case db_prefix self of
        None \<Rightarrow> pfx
      | Some orig_prefix \<Rightarrow>
          (case pfx of None \<Rightarrow> Some orig_prefix | Some p \<Rightarrow> Some (orig_prefix @ p)))"

definition DB_iterator ::
  "DBInterface \<Rightarrow> bool option \<Rightarrow> bool option \<Rightarrow> string option \<Rightarrow> bool \<Rightarrow> heap
     \<Rightarrow> error + nat Iterator \<times> heap" where
  "DB_iterator self verify fill pfx keys_only h =
     (let pfx = iterator_prefix self pfx;
          impl = db_impl self
      in case guard_at h impl of
           None \<Rightarrow> Inl DeadReference
         | Some G \<Rightarrow>
             (case g_ref G of
                None \<Rightarrow> Inl AttributeError
              | Some r \<Rightarrow>
                  (let (native, h1) = native_new h;
                       (it, h2) = MemorySafety_init native h1
                   in case addReferrer impl it h2 of
                        Inl e \<Rightarrow> Inl e
                      | Inr h3 \<Rightarrow>
                          Inr (\<lparr>it_impl = it, it_prefix = pfx, it_keys_only = keys_only\<rparr>, h3))))"

definition Iterator_close :: "nat Iterator \<Rightarrow> heap \<Rightarrow> heap" where
  "Iterator_close self h = close (it_impl self) h"


section \<open>Write batches: put and delete sets stay disjoint\<close>

lemma put_keys_WriteBatch_put: "put_keys (WriteBatch_put b k v) = insert k (put_keys b)"
  by (simp add: put_keys_def WriteBatch_put_def dom_update)

lemma delete_keys_WriteBatch_put: "delete_keys (WriteBatch_put b k v) = delete_keys b - {k}"
  by (auto simp: delete_keys_def WriteBatch_put_def)

lemma put_keys_WriteBatch_delete: "put_keys (WriteBatch_delete b k) = put_keys b - {k}"
proof -
  have "set (map fst (AList.delete k (wb_puts b))) = set (map fst (wb_puts b)) - {k}"
    by (simp only: delete_keys set_removeAll)
  then show ?thesis
    by (simp add: put_keys_def WriteBatch_delete_def)
qed

lemma delete_keys_WriteBatch_delete: "delete_keys (WriteBatch_delete b k) = insert k (delete_keys b)"
  by (simp add: delete_keys_def WriteBatch_delete_def)

lemma batch_disjoint_iff: "batch_disjoint b \<longleftrightarrow> put_keys b \<inter> delete_keys b = {}"
  by (auto simp: batch_disjoint_def put_keys_def delete_keys_def)

lemma putTo_as_put:
  "wb_private b \<Longrightarrow>
   snd (putTo db b k v) =
     WriteBatch_put b (case db_prefix db of Some p \<Rightarrow> p @ k | None \<Rightarrow> k) v"
  by (simp add: putTo_def WriteBatch_put_def Let_def)

lemma deleteFrom_as_delete:
  "wb_private b \<Longrightarrow>
   snd (deleteFrom db b k) =
     WriteBatch_delete b (case db_prefix db of Some p \<Rightarrow> p @ k | None \<Rightarrow> k)"
  by (simp add: deleteFrom_def WriteBatch_delete_def Let_def)

lemma call_op_disjoint: "batch_disjoint b \<Longrightarrow> batch_disjoint (snd (call_op x b))"
proof (cases x)
  case (Put k v)
  assume "batch_disjoint b"
  then show ?thesis
    using Put
    by (auto simp: batch_disjoint_iff put_keys_WriteBatch_put delete_keys_WriteBatch_put)
next
  case (Delete k)
  assume "batch_disjoint b"
  then show ?thesis
    using Delete
    by (auto simp: batch_disjoint_iff put_keys_WriteBatch_delete delete_keys_WriteBatch_delete)
next
  case (PutTo db k v)
  assume d: "batch_disjoint b"
  show ?thesis
  proof (cases "wb_private b")
    case True
    with d show ?thesis
      using PutTo
      by (auto simp: putTo_as_put batch_disjoint_iff put_keys_WriteBatch_put
          delete_keys_WriteBatch_put)
  next
    case False
    with d show ?thesis
      using PutTo by (simp add: putTo_def)
  qed
next
  case (DeleteFrom db k)
  assume d: "batch_disjoint b"
  show ?thesis
  proof (cases "wb_private b")
    case True
    with d show ?thesis
      using DeleteFrom
      by (auto simp: deleteFrom_as_delete batch_disjoint_iff put_keys_WriteBatch_delete
          delete_keys_WriteBatch_delete)
  next
    case False
    with d show ?thesis
      using DeleteFrom by (simp add: deleteFrom_def)
  qed
next
  case Clear
  then show ?thesis
    by (simp add: batch_disjoint_def clear_def)
qed

lemma run_ops_disjoint: "batch_disjoint b \<Longrightarrow> batch_disjoint (run_ops ops b)"
  by (induction ops arbitrary: b) (simp_all add: call_op_disjoint)

lemma batch_disjoint_init: "batch_disjoint WriteBatch_init" "batch_disjoint OpaqueWriteBatch_init"
  by (simp_all add: batch_disjoint_def WriteBatch_init_def OpaqueWriteBatch_init_def)

lemma map_of_puts_WriteBatch_put: "map_of (wb_puts (WriteBatch_put b k v)) k = Some v"
  by (simp add: WriteBatch_put_def update_conv')

lemma private_WriteBatch_put: "wb_private (WriteBatch_put b k v) = wb_private b"
  by (simp add: WriteBatch_put_def)

lemma private_WriteBatch_delete: "wb_private (WriteBatch_delete b k) = wb_private b"
  by (simp add: WriteBatch_delete_def)

text \<open>
  Claim C7.  Every sequence of \<open>put\<close>, \<open>delete\<close>, \<open>putTo\<close>, \<open>deleteFrom\<close> (and \<open>clear\<close>)
  calls keeps the put set and the delete set of a batch disjoint: the sets are disjoint
  in a new batch of either kind, and stay so from any batch in which they are.  On a
  standalone batch \<open>put(k,v1); put(k,v2); delete(k)\<close> leaves \<open>k\<close> in the delete set and
  not in the put set, and \<open>delete(k); put(k,v)\<close> leaves \<open>k\<close> in the put set with value
  \<open>v\<close> and not in the delete set.
\<close>

theorem batch_put_delete_disjoint:
  "batch_disjoint (run_ops ops WriteBatch_init)
   \<and> batch_disjoint (run_ops ops OpaqueWriteBatch_init)
   \<and> (batch_disjoint b \<longrightarrow> batch_disjoint (run_ops ops b))
   \<and> (\<not> wb_private b \<longrightarrow>
        k \<in> delete_keys (run_ops [Put k v1, Put k v2, Delete k] b)
        \<and> k \<notin> put_keys (run_ops [Put k v1, Put k v2, Delete k] b)
        \<and> k \<in> put_keys (run_ops [Delete k, Put k v] b)
        \<and> map_of (wb_puts (run_ops [Delete k, Put k v] b)) k = Some v
        \<and> k \<notin> delete_keys (run_ops [Delete k, Put k v] b))"
proof -
  have a: "batch_disjoint (run_ops ops WriteBatch_init)"
    and b: "batch_disjoint (run_ops ops OpaqueWriteBatch_init)"
    by (simp_all add: run_ops_disjoint batch_disjoint_init)
  have c: "batch_disjoint b \<longrightarrow> batch_disjoint (run_ops ops b)"
    by (simp add: run_ops_disjoint)
  have d: "\<not> wb_private b \<longrightarrow>
        k \<in> delete_keys (run_ops [Put k v1, Put k v2, Delete k] b)
        \<and> k \<notin> put_keys (run_ops [Put k v1, Put k v2, Delete k] b)
        \<and> k \<in> put_keys (run_ops [Delete k, Put k v] b)
        \<and> map_of (wb_puts (run_ops [Delete k, Put k v] b)) k = Some v
        \<and> k \<notin> delete_keys (run_ops [Delete k, Put k v] b)"
    by (simp add: private_WriteBatch_put private_WriteBatch_delete
        put_keys_WriteBatch_put delete_keys_WriteBatch_put
        put_keys_WriteBatch_delete delete_keys_WriteBatch_delete
        map_of_puts_WriteBatch_put)
  from a b c d show ?thesis by blast
qed

theorem batch_put_delete_disjoint_witness:
  "batch_disjoint \<lparr>wb_puts = [(''a'', ''1'')], wb_deletes = [''b''], wb_private = False\<rparr>
   \<and> batch_disjoint (run_ops [Put ''b'' ''2'', Delete ''a'']
        \<lparr>wb_puts = [(''a'', ''1'')], wb_deletes = [''b''], wb_private = False\<rparr>)
   \<and> ''k'' \<in> delete_keys (run_ops [Put ''k'' ''1'', Put ''k'' ''2'', Delete ''k'']
        \<lparr>wb_puts = [(''a'', ''1'')], wb_deletes = [''b''], wb_private = False\<rparr>)
   \<and> map_of (wb_puts (run_ops [Delete ''k'', Put ''k'' ''v'']
        \<lparr>wb_puts = [(''a'', ''1'')], wb_deletes = [''b''], wb_private = False\<rparr>)) ''k''
       = Some ''v''"
proof -
  have h: "batch_disjoint \<lparr>wb_puts = [(''a'', ''1'')], wb_deletes = [''b''], wb_private = False\<rparr>"
    by (simp add: batch_disjoint_def)
  have p: "\<not> wb_private \<lparr>wb_puts = [(''a'', ''1'')], wb_deletes = [''b''], wb_private = False\<rparr>"
    by simp
  show ?thesis
    using h p
      batch_put_delete_disjoint
        [of "[Put ''b'' ''2'', Delete ''a'']"
            "\<lparr>wb_puts = [(''a'', ''1'')], wb_deletes = [''b''], wb_private = False\<rparr>"
            "''k''" "''1''" "''2''" "''v''"]
    by blast
qed

section \<open>Write batches: origin check of \<open>putTo\<close> and \<open>deleteFrom\<close>\<close>

lemma call_op_private: "wb_private (snd (call_op x b)) = wb_private b"
  by (cases x) (simp_all add: WriteBatch_put_def WriteBatch_delete_def putTo_def deleteFrom_def
      clear_def Let_def)

lemma run_ops_private: "wb_private (run_ops ops b) = wb_private b"
  by (induction ops arbitrary: b) (simp_all add: call_op_private)

text \<open>
  Claim C5, as stated, asks that \<open>putTo\<close> and \<open>deleteFrom\<close> of a handle reject every
  batch that does not come from the \<open>newBatch()\<close> of that same handle.  The check reads
  the flag \<open>_private\<close> only, and \<open>newBatch\<close> records nothing about the handle: a batch
  from the \<open>newBatch()\<close> of a handle with prefix \<open>b/\<close> is accepted by a handle with
  prefix \<open>a/\<close> and written with the prefix \<open>a/\<close>.
\<close>

theorem putTo_foreign_batch_counterexample:
  "\<lparr>db_impl = 0, db_prefix = Some ''b/'', allow_close = False, default_sync = False,
      default_verify_checksums = False, default_fill_cache = True\<rparr>
   \<noteq> \<lparr>db_impl = 0, db_prefix = Some ''a/'', allow_close = False, default_sync = False,
      default_verify_checksums = False, default_fill_cache = True\<rparr>
   \<and> putTo
       \<lparr>db_impl = 0, db_prefix = Some ''a/'', allow_close = False, default_sync = False,
          default_verify_checksums = False, default_fill_cache = True\<rparr>
       (newBatch \<lparr>db_impl = 0, db_prefix = Some ''b/'', allow_close = False, default_sync = False,
          default_verify_checksums = False, default_fill_cache = True\<rparr>)
       ''k'' ''v''
     = (Inr (), \<lparr>wb_puts = [(''a/k'', ''v'')], wb_deletes = [], wb_private = True\<rparr>)
   \<and> deleteFrom
       \<lparr>db_impl = 0, db_prefix = Some ''a/'', allow_close = False, default_sync = False,
          default_verify_checksums = False, default_fill_cache = True\<rparr>
       (newBatch \<lparr>db_impl = 0, db_prefix = Some ''b/'', allow_close = False, default_sync = False,
          default_verify_checksums = False, default_fill_cache = True\<rparr>)
       ''k''
     = (Inr (), \<lparr>wb_puts = [], wb_deletes = [''a/k''], wb_private = True\<rparr>)"
  by (simp add: putTo_def deleteFrom_def newBatch_def OpaqueWriteBatch_init_def)

text \<open>
  Claim C5, amended.  \<open>putTo\<close> and \<open>deleteFrom\<close> fail with \<open>ValueError\<close> on every
  standalone batch (flag \<open>_private\<close> false) and leave it as it was; on every opaque batch
  (flag \<open>_private\<close> true) they succeed and record the key with the prefix of the
  calling handle.  A batch obtained from the \<open>newBatch()\<close> of any handle is opaque and
  stays so under every sequence of calls; a standalone \<open>WriteBatch\<close> never becomes
  opaque.
\<close>

theorem putTo_deleteFrom_origin_check:
  "(\<not> wb_private b \<longrightarrow>
      putTo self b k v = (Inl ValueError, b) \<and> deleteFrom self b k = (Inl ValueError, b))
   \<and> (wb_private b \<longrightarrow>
        fst (putTo self b k v) = Inr ()
        \<and> map_of (wb_puts (snd (putTo self b k v))) (db_key self k) = Some v
        \<and> db_key self k \<notin> delete_keys (snd (putTo self b k v))
        \<and> fst (deleteFrom self b k) = Inr ()
        \<and> db_key self k \<in> delete_keys (snd (deleteFrom self b k))
        \<and> db_key self k \<notin> put_keys (snd (deleteFrom self b k)))
   \<and> wb_private (run_ops ops (newBatch other))
   \<and> \<not> wb_private (run_ops ops WriteBatch_init)"
proof -
  have a: "\<not> wb_private b \<longrightarrow>
      putTo self b k v = (Inl ValueError, b) \<and> deleteFrom self b k = (Inl ValueError, b)"
    by (simp add: putTo_def deleteFrom_def)
  have p: "wb_private b \<longrightarrow>
        fst (putTo self b k v) = Inr ()
        \<and> map_of (wb_puts (snd (putTo self b k v))) (db_key self k) = Some v
        \<and> db_key self k \<notin> delete_keys (snd (putTo self b k v))"
    by (simp add: putTo_def Let_def db_key_def update_conv' delete_keys_def)
  have d: "wb_private b \<longrightarrow>
        fst (deleteFrom self b k) = Inr ()
        \<and> db_key self k \<in> delete_keys (snd (deleteFrom self b k))
        \<and> db_key self k \<notin> put_keys (snd (deleteFrom self b k))"
    by (simp add: deleteFrom_def Let_def db_key_def delete_keys_def put_keys_def delete_notin_dom)
  have n: "wb_private (run_ops ops (newBatch other))" "\<not> wb_private (run_ops ops WriteBatch_init)"
    by (simp_all add: run_ops_private newBatch_def OpaqueWriteBatch_init_def WriteBatch_init_def)
  from a p d n show ?thesis by blast
qed

theorem putTo_deleteFrom_origin_check_witness:
  "\<not> wb_private WriteBatch_init
   \<and> putTo \<lparr>db_impl = 0, db_prefix = Some ''a/'', allow_close = False, default_sync = False,
          default_verify_checksums = False, default_fill_cache = True\<rparr> WriteBatch_init ''k'' ''v''
       = (Inl ValueError, WriteBatch_init)
   \<and> wb_private OpaqueWriteBatch_init
   \<and> map_of (wb_puts (snd (putTo \<lparr>db_impl = 0, db_prefix = Some ''a/'', allow_close = False,
          default_sync = False, default_verify_checksums = False, default_fill_cache = True\<rparr>
          OpaqueWriteBatch_init ''k'' ''v''))) ''a/k'' = Some ''v''"
  using putTo_deleteFrom_origin_check
    [of WriteBatch_init "\<lparr>db_impl = 0, db_prefix = Some ''a/'', allow_close = False, default_sync = False,
          default_verify_checksums = False, default_fill_cache = True\<rparr>" "''k''" "''v''"]
    putTo_deleteFrom_origin_check
    [of OpaqueWriteBatch_init "\<lparr>db_impl = 0, db_prefix = Some ''a/'', allow_close = False, default_sync = False,
          default_verify_checksums = False, default_fill_cache = True\<rparr>" "''k''" "''v''"]
  by (simp add: WriteBatch_init_def OpaqueWriteBatch_init_def db_key_def)

section \<open>Write batches: \<open>write\<close> of a standalone batch through a prefixed handle\<close>

lemma fold_at:
  "u < length bs \<Longrightarrow>
   fold (\<lambda>x bs. bs[u := f x (bs ! u)]) xs bs = bs[u := fold f xs (bs ! u)]"
  by (induction xs arbitrary: bs) simp_all

lemma fold_puts:
  "fold (\<lambda>(key, value) b. b\<lparr>wb_puts := AList.update (p @ key) value (wb_puts b)\<rparr>) xs b
   = b\<lparr>wb_puts := fold (\<lambda>(key, value). AList.update (p @ key) value) xs (wb_puts b)\<rparr>"
  by (induction xs arbitrary: b) (simp_all add: case_prod_beta)

lemma fold_deletes:
  "fold (\<lambda>key b. b\<lparr>wb_deletes := List.insert (p @ key) (wb_deletes b)\<rparr>) xs b
   = b\<lparr>wb_deletes := fold (\<lambda>key. List.insert (p @ key)) xs (wb_deletes b)\<rparr>"
  by (induction xs arbitrary: b) simp_all

lemma set_fold_insert:
  "set (fold (\<lambda>key. List.insert (p @ key)) xs acc) = set acc \<union> (\<lambda>k. p @ k) ` set xs"
  by (induction xs arbitrary: acc) auto

lemma keys_fold_update:
  "fst ` set (fold (\<lambda>(key, value). AList.update (p @ key) value) xs acc)
   = fst ` set acc \<union> (\<lambda>k. p @ k) ` fst ` set xs"
  by (induction xs arbitrary: acc) (auto simp: dom_update case_prod_beta)

lemma map_of_fold_update:
  "distinct (map fst xs) \<Longrightarrow>
   map_of (fold (\<lambda>(key, value). AList.update (p @ key) value) xs acc) (p @ k)
   = (case map_of xs k of Some v \<Rightarrow> Some v | None \<Rightarrow> map_of acc (p @ k))"
proof (induction xs arbitrary: acc)
  case Nil
  then show ?case by simp
next
  case (Cons x xs)
  obtain a b where x: "x = (a, b)" by (cases x)
  from Cons.prems x have nin: "a \<notin> fst ` set xs" and d: "distinct (map fst xs)" by auto
  from nin have none: "map_of xs a = None" by (simp add: map_of_eq_None_iff)
  show ?case
    using Cons.IH [OF d, of "AList.update (p @ a) b acc"] x none
    by (auto simp: update_conv' split: option.splits)
qed

lemma fold_at_pair:
  "u < length bs \<Longrightarrow>
   fold (\<lambda>(k, v) bs. bs[u := f k v (bs ! u)]) xs bs = bs[u := fold (\<lambda>(k, v). f k v) xs (bs ! u)]"
  by (induction xs arbitrary: bs) (simp_all add: case_prod_beta)

lemma DB_write_public:
  assumes "batch < length bs" "\<not> wb_private (bs ! batch)" "db_prefix self = Some p"
  shows "DB_write self batch sync bs =
    ((length bs, case sync of None \<Rightarrow> default_sync self | Some s \<Rightarrow> s),
     bs @ [\<lparr>wb_puts = fold (\<lambda>(key, value). AList.update (p @ key) value) (wb_puts (bs ! batch)) [],
            wb_deletes = fold (\<lambda>key. List.insert (p @ key)) (wb_deletes (bs ! batch)) [],
            wb_private = True\<rparr>])"
proof -
  let ?u = "length bs"
  let ?bs1 = "bs @ [OpaqueWriteBatch_init]"
  have u: "?u < length ?bs1" by simp
  have b1: "?bs1 ! batch = bs ! batch" using assms(1) by (simp add: nth_append)
  have f1: "fold (\<lambda>(key, value) bs.
              bs[?u := (bs ! ?u)\<lparr>wb_puts := AList.update (p @ key) value (wb_puts (bs ! ?u))\<rparr>])
            (wb_puts (bs ! batch)) ?bs1
        = ?bs1[?u := fold (\<lambda>(key, value) b. b\<lparr>wb_puts := AList.update (p @ key) value (wb_puts b)\<rparr>)
                      (wb_puts (bs ! batch)) (?bs1 ! ?u)]"
    by (rule fold_at_pair [OF u,
          where f = "\<lambda>key value b. b\<lparr>wb_puts := AList.update (p @ key) value (wb_puts b)\<rparr>"])
  let ?bs2 = "?bs1[?u := fold (\<lambda>(key, value) b. b\<lparr>wb_puts := AList.update (p @ key) value (wb_puts b)\<rparr>)
                      (wb_puts (bs ! batch)) (?bs1 ! ?u)]"
  have u2: "?u < length ?bs2" by simp
  have b2: "?bs2 ! batch = bs ! batch" using assms(1) by (simp add: nth_append)
  have f2: "fold (\<lambda>key bs.
              bs[?u := (bs ! ?u)\<lparr>wb_deletes := List.insert (p @ key) (wb_deletes (bs ! ?u))\<rparr>])
            (wb_deletes (bs ! batch)) ?bs2
        = ?bs2[?u := fold (\<lambda>key b. b\<lparr>wb_deletes := List.insert (p @ key) (wb_deletes b)\<rparr>)
                      (wb_deletes (bs ! batch)) (?bs2 ! ?u)]"
    by (rule fold_at [OF u2,
          where f = "\<lambda>key b. b\<lparr>wb_deletes := List.insert (p @ key) (wb_deletes b)\<rparr>"])
  show ?thesis
    unfolding DB_write_def Let_def
    using assms(2,3)
    by (simp only: option.case if_False b1 f1 b2 f2)
       (simp add: fold_puts fold_deletes OpaqueWriteBatch_init_def)
qed

text \<open>
  Claim C6.  For a standalone batch \<open>B\<close> (a valid reference into the store, its \<open>_puts\<close>
  a dict, that is with distinct keys) and a handle with prefix \<open>p\<close>, \<open>write\<close> forwards
  to the engine a batch whose put keys are exactly the put keys of \<open>B\<close> with \<open>p\<close> in
  front, each with the value \<open>B\<close> gives it, and whose delete keys are exactly the delete
  keys of \<open>B\<close> with \<open>p\<close> in front; every batch object that existed before the call, \<open>B\<close>
  among them, is unchanged after it.
\<close>

theorem write_public_batch_translated:
  assumes "batch < length bs"
    and "\<not> wb_private (bs ! batch)"
    and "db_prefix self = Some p"
    and "distinct (map fst (wb_puts (bs ! batch)))"
  shows "put_keys (snd (DB_write self batch sync bs) ! fst (fst (DB_write self batch sync bs)))
           = (\<lambda>k. p @ k) ` put_keys (bs ! batch)
       \<and> (\<forall>k. map_of (wb_puts (snd (DB_write self batch sync bs)
                   ! fst (fst (DB_write self batch sync bs)))) (p @ k)
              = map_of (wb_puts (bs ! batch)) k)
       \<and> delete_keys (snd (DB_write self batch sync bs) ! fst (fst (DB_write self batch sync bs)))
           = (\<lambda>k. p @ k) ` delete_keys (bs ! batch)
       \<and> take (length bs) (snd (DB_write self batch sync bs)) = bs
       \<and> snd (DB_write self batch sync bs) ! batch = bs ! batch"
proof -
  note w = DB_write_public [OF assms(1,2,3), of sync]
  have k: "put_keys (snd (DB_write self batch sync bs) ! fst (fst (DB_write self batch sync bs)))
           = (\<lambda>k. p @ k) ` put_keys (bs ! batch)"
    by (simp add: w put_keys_def keys_fold_update)
  have m: "\<forall>k. map_of (wb_puts (snd (DB_write self batch sync bs)
                   ! fst (fst (DB_write self batch sync bs)))) (p @ k)
              = map_of (wb_puts (bs ! batch)) k"
    by (simp add: w map_of_fold_update [OF assms(4)] split: option.splits)
  have d: "delete_keys (snd (DB_write self batch sync bs) ! fst (fst (DB_write self batch sync bs)))
           = (\<lambda>k. p @ k) ` delete_keys (bs ! batch)"
    by (simp add: w delete_keys_def set_fold_insert)
  have t: "take (length bs) (snd (DB_write self batch sync bs)) = bs"
    by (simp add: w)
  have b: "snd (DB_write self batch sync bs) ! batch = bs ! batch"
    using assms(1) by (simp add: w nth_append)
  from k m d t b show ?thesis by blast
qed

theorem write_public_batch_translated_witness:
  "(0::nat) < length [\<lparr>wb_puts = [(''k1'', ''v1''), (''k2'', ''v2'')], wb_deletes = [''k3''], wb_private = False\<rparr>]
   \<and> put_keys (snd (DB_write
          \<lparr>db_impl = 0, db_prefix = Some ''ns/'', allow_close = False, default_sync = False,
             default_verify_checksums = False, default_fill_cache = True\<rparr> 0 None
          [\<lparr>wb_puts = [(''k1'', ''v1''), (''k2'', ''v2'')], wb_deletes = [''k3''], wb_private = False\<rparr>])
        ! fst (fst (DB_write
          \<lparr>db_impl = 0, db_prefix = Some ''ns/'', allow_close = False, default_sync = False,
             default_verify_checksums = False, default_fill_cache = True\<rparr> 0 None
          [\<lparr>wb_puts = [(''k1'', ''v1''), (''k2'', ''v2'')], wb_deletes = [''k3''], wb_private = False\<rparr>])))
     = {''ns/k1'', ''ns/k2''}
   \<and> delete_keys (snd (DB_write
          \<lparr>db_impl = 0, db_prefix = Some ''ns/'', allow_close = False, default_sync = False,
             default_verify_checksums = False, default_fill_cache = True\<rparr> 0 None
          [\<lparr>wb_puts = [(''k1'', ''v1''), (''k2'', ''v2'')], wb_deletes = [''k3''], wb_private = False\<rparr>])
        ! fst (fst (DB_write
          \<lparr>db_impl = 0, db_prefix = Some ''ns/'', allow_close = False, default_sync = False,
             default_verify_checksums = False, default_fill_cache = True\<rparr> 0 None
          [\<lparr>wb_puts = [(''k1'', ''v1''), (''k2'', ''v2'')], wb_deletes = [''k3''], wb_private = False\<rparr>])))
     = {''ns/k3''}
   \<and> snd (DB_write
          \<lparr>db_impl = 0, db_prefix = Some ''ns/'', allow_close = False, default_sync = False,
             default_verify_checksums = False, default_fill_cache = True\<rparr> 0 None
          [\<lparr>wb_puts = [(''k1'', ''v1''), (''k2'', ''v2'')], wb_deletes = [''k3''], wb_private = False\<rparr>]) ! 0
     = \<lparr>wb_puts = [(''k1'', ''v1''), (''k2'', ''v2'')], wb_deletes = [''k3''], wb_private = False\<rparr>"
  using write_public_batch_translated
    [of 0 "[\<lparr>wb_puts = [(''k1'', ''v1''), (''k2'', ''v2'')], wb_deletes = [''k3''], wb_private = False\<rparr>]"
        "\<lparr>db_impl = 0, db_prefix = Some ''ns/'', allow_close = False, default_sync = False,
             default_verify_checksums = False, default_fill_cache = True\<rparr>" "''ns/''" None]
  by (simp add: put_keys_def delete_keys_def)

section \<open>Resource guards: cascading close\<close>

lemma close_unfold:
  "guard_at h self = Some G \<Longrightarrow>
   close self h =
     (case g_ref G of None \<Rightarrow> (case g_referrers G of None \<Rightarrow> store self (cleared G) h
                                  | Some rs \<Rightarrow> close_all rs (store self (cleared G) h))
      | Some r \<Rightarrow> native_close r (case g_referrers G of None \<Rightarrow> store self (cleared G) h
                                  | Some rs \<Rightarrow> close_all rs (store self (cleared G) h)))"
  by (simp add: close.simps Let_def cleared_def split: option.splits)

lemma cleared_eq: "G\<lparr>g_ref := None, g_referrers := None\<rparr> = cleared G"
  by (simp add: cleared_def)

lemma close_dead: "guard_at h self = None \<Longrightarrow> close self h = h"
  by (simp add: close.simps)

lemma guard_at_store:
  "guard_at (store g G h) x = (if x = g \<and> g < length (objs h) then Some G else guard_at h x)"
  by (auto simp: guard_at_def store_def)

lemma guard_at_native_close: "guard_at (native_close r h) x = guard_at h x"
  by (simp add: guard_at_def native_close_def)

lemma guard_at_Some_length: "guard_at h g = Some G \<Longrightarrow> g < length (objs h)"
  by (auto simp: guard_at_def split: if_splits)

lemma cleared_cleared: "cleared (cleared G) = cleared G"
  by (simp add: cleared_def)

text \<open>Frame: a close leaves every guard as it was or cleared.\<close>

lemma close_frame:
  "guard_at (close g h) x = guard_at h x \<or> guard_at (close g h) x = map_option cleared (guard_at h x)"
  "guard_at (close_all ds h) x = guard_at h x \<or> guard_at (close_all ds h) x = map_option cleared (guard_at h x)"
proof (induct g h and ds h rule: close_close_all.induct)
  case (1 self h)
  show ?case
  proof (cases "guard_at h self")
    case None
    then show ?thesis by (simp add: close_dead)
  next
    case (Some G)
    let ?h1 = "store self (cleared G) h"
    let ?h2 = "case g_referrers G of None \<Rightarrow> ?h1 | Some rs \<Rightarrow> close_all rs ?h1"
    have h1: "guard_at ?h1 x = guard_at h x \<or> guard_at ?h1 x = map_option cleared (guard_at h x)"
      using Some by (auto simp: guard_at_store)
    have h2: "guard_at ?h2 x = guard_at ?h1 x \<or> guard_at ?h2 x = map_option cleared (guard_at ?h1 x)"
    proof (cases "g_referrers G")
      case None
      then show ?thesis by simp
    next
      case (Some rs)
      then show ?thesis
        using 1 [OF \<open>guard_at h self = Some G\<close> refl Some] by (simp add: cleared_eq)
    qed
    have c: "guard_at (close self h) x = guard_at ?h2 x"
      by (simp add: close_unfold [OF Some] guard_at_native_close split: option.splits)
    from h1 h2 show ?thesis
      unfolding c
      by (cases "guard_at h x") (auto simp: cleared_cleared guard_at_store Some split: if_splits)
  qed
next
  case (2 h)
  then show ?case by simp
next
  case (3 referrer rest h)
  let ?h' = "case guard_at h referrer of None \<Rightarrow> h | Some _ \<Rightarrow> close referrer h"
  have a: "guard_at ?h' x = guard_at h x \<or> guard_at ?h' x = map_option cleared (guard_at h x)"
    using 3(1) by (cases "guard_at h referrer") simp_all
  have b: "guard_at (close_all rest ?h') x = guard_at ?h' x
        \<or> guard_at (close_all rest ?h') x = map_option cleared (guard_at ?h' x)"
    using 3(2) by simp
  from a b show ?case
    by (cases "guard_at h x") (auto simp: cleared_cleared)
qed

lemma cleared_id_iff: "cleared G = G \<longleftrightarrow> g_ref G = None \<and> g_referrers G = None"
proof
  assume e: "cleared G = G"
  have "g_ref (cleared G) = None" "g_referrers (cleared G) = None"
    by (simp_all add: cleared_def)
  then show "g_ref G = None \<and> g_referrers G = None"
    unfolding e by simp
next
  assume "g_ref G = None \<and> g_referrers G = None"
  then show "cleared G = G" by (simp add: cleared_def)
qed

lemma is_closed_iff: "is_closed h g \<longleftrightarrow> (\<exists>G. guard_at h g = Some G \<and> cleared G = G)"
  by (cases "guard_at h g") (simp_all add: is_closed_def cleared_id_iff)

lemma closed_stays_closed:
  "is_closed h x \<Longrightarrow> is_closed (close g h) x"
  "is_closed h x \<Longrightarrow> is_closed (close_all ds h) x"
  using close_frame(1) [of g h x] close_frame(2) [of ds h x]
  by (auto simp: is_closed_iff cleared_cleared)

lemma live_close:
  "live (close g h) x = live h x"
  "live (close_all ds h) x = live h x"
  using close_frame(1) [of g h x] close_frame(2) [of ds h x]
  by (cases "guard_at h x"; auto simp: live_def)+

lemma is_closed_store_cleared:
  "guard_at h g = Some G \<Longrightarrow> is_closed (store g (cleared G) h) g"
  by (simp add: is_closed_iff guard_at_store guard_at_Some_length cleared_cleared)

lemma is_closed_native_close: "is_closed (native_close r h) x = is_closed h x"
  by (simp add: is_closed_def guard_at_native_close)

lemma close_closes_self: "live h g \<Longrightarrow> is_closed (close g h) g"
proof -
  assume "live h g"
  then obtain G where G: "guard_at h g = Some G" by (auto simp: live_def)
  have "is_closed (case g_referrers G of None \<Rightarrow> store g (cleared G) h
                | Some rs \<Rightarrow> close_all rs (store g (cleared G) h)) g"
    using is_closed_store_cleared [OF G]
    by (cases "g_referrers G") (simp_all add: closed_stays_closed)
  then show ?thesis
    by (simp add: close_unfold [OF G] is_closed_native_close split: option.splits)
qed

lemma close_all_closes_each:
  "d \<in> set ds \<Longrightarrow> live h d \<Longrightarrow> is_closed (close_all ds h) d"
proof (induction ds arbitrary: h)
  case Nil
  then show ?case by simp
next
  case (Cons a ds)
  let ?h' = "case guard_at h a of None \<Rightarrow> h | Some _ \<Rightarrow> close a h"
  have l: "live ?h' d = live h d"
    by (cases "guard_at h a") (simp_all add: live_close)
  show ?case
  proof (cases "d = a")
    case True
    with Cons.prems have "is_closed ?h' d"
      by (cases "guard_at h a") (auto simp: live_def close_closes_self)
    then show ?thesis by (simp add: closed_stays_closed)
  next
    case False
    with Cons.prems have "d \<in> set ds" by simp
    then show ?thesis
      using Cons.IH [of ?h'] l Cons.prems(2) by simp
  qed
qed

lemma close_closed_noop: "is_closed h g \<Longrightarrow> close g h = h"
proof -
  assume "is_closed h g"
  then obtain G where G: "guard_at h g = Some G" and c: "g_ref G = None" "g_referrers G = None"
    by (cases "guard_at h g") (auto simp: is_closed_def)
  have "cleared G = G" using c by (simp add: cleared_def)
  moreover have "store g G h = h"
  proof -
    from G have "g < length (objs h)" "objs h ! g = Some G"
      by (auto simp: guard_at_def split: if_splits)
    then have "(objs h)[g := Some G] = objs h"
      by (metis list_update_id)
    then show ?thesis by (simp add: store_def)
  qed
  ultimately show ?thesis
    by (simp add: close_unfold [OF G] c)
qed

text \<open>The log of native releases only grows.\<close>

lemma released_grows:
  "\<exists>L. released (close g h) = released h @ L"
  "\<exists>L. released (close_all ds h) = released h @ L"
proof (induct g h and ds h rule: close_close_all.induct)
  case (1 self h)
  show ?case
  proof (cases "guard_at h self")
    case None
    then show ?thesis by (simp add: close_dead)
  next
    case (Some G)
    let ?h1 = "store self (cleared G) h"
    let ?h2 = "case g_referrers G of None \<Rightarrow> ?h1 | Some rs \<Rightarrow> close_all rs ?h1"
    have "\<exists>L. released ?h2 = released ?h1 @ L"
    proof (cases "g_referrers G")
      case None
      then show ?thesis by simp
    next
      case (Some rs)
      then show ?thesis
        using 1 [OF \<open>guard_at h self = Some G\<close> refl Some] by (simp add: cleared_eq)
    qed
    then obtain L where "released ?h2 = released h @ L"
      by (auto simp: store_def)
    then show ?thesis
      by (simp add: close_unfold [OF Some] native_close_def split: option.splits)
  qed
next
  case (2 h)
  then show ?case by simp
next
  case (3 referrer rest h)
  let ?h' = "case guard_at h referrer of None \<Rightarrow> h | Some _ \<Rightarrow> close referrer h"
  obtain L1 where a: "released ?h' = released h @ L1"
    using 3(1) by (cases "guard_at h referrer") auto
  obtain L2 where b: "released (close_all rest ?h') = released ?h' @ L2"
    using 3(2) by auto
  show ?case
    using a b by simp
qed

lemma released_subset:
  "set (released h) \<subseteq> set (released (close g h))"
  "set (released h) \<subseteq> set (released (close_all ds h))"
  using released_grows(1) [of g h] released_grows(2) [of ds h] by auto

lemma owns_after_close:
  "owns (close g h) x r \<Longrightarrow> owns h x r"
  "owns (close_all ds h) x r \<Longrightarrow> owns h x r"
  using close_frame(1) [of g h x] close_frame(2) [of ds h x]
  by (cases "guard_at h x"; auto simp: owns_def cleared_def)+

lemma no_owner_close:
  "no_owner h r \<Longrightarrow> no_owner (close g h) r"
  "no_owner h r \<Longrightarrow> no_owner (close_all ds h) r"
  by (auto simp: no_owner_def dest: owns_after_close)

lemma owns_store:
  assumes "owns (store g (cleared G) h) x r"
  shows "owns h x r \<and> x \<noteq> g"
proof (cases "x = g \<and> g < length (objs h)")
  case True
  then have "guard_at (store g (cleared G) h) x = Some (cleared G)"
    by (simp add: guard_at_store)
  with assms show ?thesis by (simp add: owns_def cleared_def)
next
  case False
  then have e: "guard_at (store g (cleared G) h) x = guard_at h x"
    by (auto simp: guard_at_store)
  with assms have o: "owns h x r" by (simp add: owns_def)
  then have "x < length (objs h)"
    by (auto simp: owns_def guard_at_def split: if_splits)
  with False o show ?thesis by auto
qed

text \<open>A resource that no guard owns is not released by a close.\<close>

lemma close_count_unowned:
  "no_owner h r \<Longrightarrow> count_list (released (close g h)) r = count_list (released h) r"
  "no_owner h r \<Longrightarrow> count_list (released (close_all ds h)) r = count_list (released h) r"
proof (induct g h and ds h rule: close_close_all.induct)
  case (1 self h)
  show ?case
  proof (cases "guard_at h self")
    case None
    then show ?thesis by (simp add: close_dead)
  next
    case (Some G)
    let ?h1 = "store self (cleared G) h"
    let ?h2 = "case g_referrers G of None \<Rightarrow> ?h1 | Some rs \<Rightarrow> close_all rs ?h1"
    have n1: "no_owner ?h1 r"
      using 1(2) by (auto simp: no_owner_def dest: owns_store)
    have "count_list (released ?h2) r = count_list (released ?h1) r"
    proof (cases "g_referrers G")
      case None
      then show ?thesis by simp
    next
      case (Some rs)
      then show ?thesis
        using 1(1) [OF \<open>guard_at h self = Some G\<close> refl Some] n1 by (simp add: cleared_eq)
    qed
    then have c: "count_list (released ?h2) r = count_list (released h) r"
      by (simp add: store_def)
    have "\<not> owns h self r"
      using 1(2) by (simp add: no_owner_def)
    then have "g_ref G \<noteq> Some r"
      using Some by (simp add: owns_def)
    then show ?thesis
      using c by (auto simp: close_unfold [OF Some] native_close_def split: option.splits)
  qed
next
  case (2 h)
  then show ?case by simp
next
  case (3 referrer rest h)
  let ?h' = "case guard_at h referrer of None \<Rightarrow> h | Some _ \<Rightarrow> close referrer h"
  have a: "count_list (released ?h') r = count_list (released h) r"
    using 3(1) 3(3) by (cases "guard_at h referrer") auto
  have n: "no_owner ?h' r"
    using 3(3) by (cases "guard_at h referrer") (auto simp: no_owner_close)
  show ?case
    using a 3(2) [OF n] by simp
qed

lemma owns_native_close: "owns (native_close r' h) x r = owns h x r"
  by (simp add: owns_def guard_at_native_close)

lemma owns_store_other: "x \<noteq> g \<Longrightarrow> owns (store g G' h) x r = owns h x r"
  by (simp add: owns_def guard_at_store)

text \<open>A guard that loses its resource in a close has had it released.\<close>

lemma close_releases:
  "owns h x r \<Longrightarrow> \<not> owns (close g h) x r \<Longrightarrow> r \<in> set (released (close g h))"
  "owns h x r \<Longrightarrow> \<not> owns (close_all ds h) x r \<Longrightarrow> r \<in> set (released (close_all ds h))"
proof (induct g h and ds h rule: close_close_all.induct)
  case (1 self h)
  show ?case
  proof (cases "guard_at h self")
    case None
    then show ?thesis using 1(2,3) by (simp add: close_dead)
  next
    case (Some G)
    let ?h1 = "store self (cleared G) h"
    let ?h2 = "case g_referrers G of None \<Rightarrow> ?h1 | Some rs \<Rightarrow> close_all rs ?h1"
    note u = close_unfold [OF Some]
    show ?thesis
    proof (cases "x = self")
      case True
      with 1(2) Some have "g_ref G = Some r" by (simp add: owns_def)
      then show ?thesis by (simp add: u native_close_def)
    next
      case False
      then have o1: "owns ?h1 x r" using 1(2) by (simp add: owns_store_other)
      have n2: "\<not> owns ?h2 x r"
        using 1(3) by (simp add: u owns_native_close split: option.splits)
      have "r \<in> set (released ?h2)"
      proof (cases "g_referrers G")
        case None
        with o1 n2 show ?thesis by simp
      next
        case (Some rs)
        with o1 n2 show ?thesis
          using 1(1) [OF \<open>guard_at h self = Some G\<close> refl Some] by (simp add: cleared_eq)
      qed
      then show ?thesis
        by (simp add: u native_close_def split: option.splits)
    qed
  qed
next
  case (2 h)
  then show ?case by simp
next
  case (3 referrer rest h)
  let ?h' = "case guard_at h referrer of None \<Rightarrow> h | Some _ \<Rightarrow> close referrer h"
  show ?case
  proof (cases "owns ?h' x r")
    case True
    then show ?thesis using 3(2) 3(4) by simp
  next
    case False
    then have "r \<in> set (released ?h')"
      using 3(1) 3(3) by (cases "guard_at h referrer") auto
    then show ?thesis
      using released_subset(2) [of ?h' rest] by auto
  qed
qed

lemma sole_owner_D:
  "sole_owner h g r \<Longrightarrow> owns h x r \<Longrightarrow> x = g"
proof -
  assume s: "sole_owner h g r" and o: "owns h x r"
  from o have "x < length (objs h)"
    by (auto simp: owns_def guard_at_def split: if_splits)
  with s o show "x = g"
    by (auto simp: sole_owner_def list_all_iff)
qed

text \<open>
  Claim C2.  Let \<open>g\<close> be a guard that has not been closed (it still has its native
  resource \<open>r\<close> and its set \<open>ds\<close> of registered dependents), \<open>r\<close> being owned by no other
  guard.  After \<open>close\<close>: every dependent that was alive is closed, and the native
  resource it owned has been released; \<open>g\<close> itself is closed; \<open>r\<close> has been released
  exactly once more than before.  A second \<open>close\<close>, at once or in any later state in
  which \<open>g\<close> is closed, changes nothing at all: nothing is released and no guard changes.
\<close>

theorem guard_close_cascade_once:
  assumes "guard_at h g = Some G"
    and "g_referrers G = Some ds"
    and "sole_owner h g r"
  shows "(\<forall>d \<in> set ds. live h d \<longrightarrow>
            is_closed (close g h) d
            \<and> (\<forall>rd. owns h d rd \<longrightarrow> rd \<in> set (released (close g h))))
       \<and> is_closed (close g h) g
       \<and> count_list (released (close g h)) r = Suc (count_list (released h) r)
       \<and> close g (close g h) = close g h
       \<and> (\<forall>h'. is_closed h' g \<longrightarrow> close g h' = h')"
proof -
  let ?h1 = "store g (cleared G) h"
  from assms(3) have o: "owns h g r" by (simp add: sole_owner_def)
  with assms(1) have r: "g_ref G = Some r" by (simp add: owns_def)
  have u: "close g h = native_close r (close_all ds ?h1)"
    by (simp add: close_unfold [OF assms(1)] r assms(2))
  have lg: "live h g" using assms(1) by (simp add: live_def)
  have cg: "is_closed (close g h) g"
    by (rule close_closes_self [OF lg])
  have deps: "\<forall>d \<in> set ds. live h d \<longrightarrow>
            is_closed (close g h) d
            \<and> (\<forall>rd. owns h d rd \<longrightarrow> rd \<in> set (released (close g h)))"
  proof (intro ballI impI)
    fix d assume d: "d \<in> set ds" and l: "live h d"
    have "live ?h1 d"
      using l assms(1) by (auto simp: live_def guard_at_store)
    then have "is_closed (close_all ds ?h1) d"
      by (rule close_all_closes_each [OF d])
    then have c: "is_closed (close g h) d"
      by (simp add: u is_closed_native_close)
    have "\<forall>rd. owns h d rd \<longrightarrow> rd \<in> set (released (close g h))"
    proof (intro allI impI)
      fix rd assume od: "owns h d rd"
      from c have "\<not> owns (close g h) d rd"
        by (cases "guard_at (close g h) d") (auto simp: is_closed_def owns_def)
      with od show "rd \<in> set (released (close g h))"
        by (rule close_releases(1))
    qed
    with c show "is_closed (close g h) d
            \<and> (\<forall>rd. owns h d rd \<longrightarrow> rd \<in> set (released (close g h)))" ..
  qed
  have "no_owner ?h1 r"
    unfolding no_owner_def
  proof (intro allI notI)
    fix x assume "owns ?h1 x r"
    then have "owns h x r \<and> x \<noteq> g" by (rule owns_store)
    with sole_owner_D [OF assms(3)] show False by blast
  qed
  then have "count_list (released (close_all ds ?h1)) r = count_list (released ?h1) r"
    by (rule close_count_unowned(2))
  then have cnt: "count_list (released (close g h)) r = Suc (count_list (released h) r)"
    by (simp add: u native_close_def store_def)
  have idem: "close g (close g h) = close g h"
    by (rule close_closed_noop [OF cg])
  have later: "\<forall>h'. is_closed h' g \<longrightarrow> close g h' = h'"
    by (simp add: close_closed_noop)
  from deps cg cnt idem later show ?thesis by blast
qed


theorem guard_close_cascade_once_witness:
  "guard_at
     \<lparr>objs = [Some \<lparr>g_ref = Some 0, g_referrers = Some [1, 2, 3]\<rparr>,
              Some \<lparr>g_ref = Some 1, g_referrers = Some []\<rparr>,
              None,
              Some \<lparr>g_ref = Some 3, g_referrers = Some [4]\<rparr>,
              Some \<lparr>g_ref = Some 4, g_referrers = Some []\<rparr>],
       released = [], fresh = 5\<rparr> 0
     = Some \<lparr>g_ref = Some 0, g_referrers = Some [1, 2, 3]\<rparr>
   \<and> sole_owner
     \<lparr>objs = [Some \<lparr>g_ref = Some 0, g_referrers = Some [1, 2, 3]\<rparr>,
              Some \<lparr>g_ref = Some 1, g_referrers = Some []\<rparr>,
              None,
              Some \<lparr>g_ref = Some 3, g_referrers = Some [4]\<rparr>,
              Some \<lparr>g_ref = Some 4, g_referrers = Some []\<rparr>],
       released = [], fresh = 5\<rparr> 0 0
   \<and> is_closed (close 0
     \<lparr>objs = [Some \<lparr>g_ref = Some 0, g_referrers = Some [1, 2, 3]\<rparr>,
              Some \<lparr>g_ref = Some 1, g_referrers = Some []\<rparr>,
              None,
              Some \<lparr>g_ref = Some 3, g_referrers = Some [4]\<rparr>,
              Some \<lparr>g_ref = Some 4, g_referrers = Some []\<rparr>],
       released = [], fresh = 5\<rparr>) 3
   \<and> 3 \<in> set (released (close 0
     \<lparr>objs = [Some \<lparr>g_ref = Some 0, g_referrers = Some [1, 2, 3]\<rparr>,
              Some \<lparr>g_ref = Some 1, g_referrers = Some []\<rparr>,
              None,
              Some \<lparr>g_ref = Some 3, g_referrers = Some [4]\<rparr>,
              Some \<lparr>g_ref = Some 4, g_referrers = Some []\<rparr>],
       released = [], fresh = 5\<rparr>))
   \<and> count_list (released (close 0
     \<lparr>objs = [Some \<lparr>g_ref = Some 0, g_referrers = Some [1, 2, 3]\<rparr>,
              Some \<lparr>g_ref = Some 1, g_referrers = Some []\<rparr>,
              None,
              Some \<lparr>g_ref = Some 3, g_referrers = Some [4]\<rparr>,
              Some \<lparr>g_ref = Some 4, g_referrers = Some []\<rparr>],
       released = [], fresh = 5\<rparr>)) 0 = 1"
proof -
  let ?h = "\<lparr>objs = [Some \<lparr>g_ref = Some 0, g_referrers = Some [1, 2, 3]\<rparr>,
              Some \<lparr>g_ref = Some 1, g_referrers = Some []\<rparr>,
              None,
              Some \<lparr>g_ref = Some 3, g_referrers = Some [4]\<rparr>,
              Some \<lparr>g_ref = Some (4::nat), g_referrers = Some []\<rparr>],
       released = [], fresh = 5\<rparr>"
  have g: "guard_at ?h 0 = Some \<lparr>g_ref = Some 0, g_referrers = Some [1, 2, 3]\<rparr>"
    by (simp add: guard_at_def)
  have r: "g_referrers \<lparr>g_ref = Some (0::nat), g_referrers = Some [1, 2, 3]\<rparr> = Some [1, 2, 3]"
    by simp
  have s: "sole_owner ?h 0 0"
    by (simp add: sole_owner_def owns_def guard_at_def upt_rec)
  have l: "live ?h 3" and o: "owns ?h 3 3"
    by (simp_all add: live_def owns_def guard_at_def)
  show ?thesis
    using g s l o guard_close_cascade_once [OF g r s]
    by simp
qed

text \<open>The cascade on the heap of the witness, computed.\<close>

lemma close_heap_example:
  "close 0
     \<lparr>objs = [Some \<lparr>g_ref = Some 0, g_referrers = Some [1, 2, 3]\<rparr>,
              Some \<lparr>g_ref = Some 1, g_referrers = Some []\<rparr>,
              None,
              Some \<lparr>g_ref = Some 3, g_referrers = Some [4]\<rparr>,
              Some \<lparr>g_ref = Some 4, g_referrers = Some []\<rparr>],
       released = [], fresh = 5\<rparr>
   = \<lparr>objs = [Some \<lparr>g_ref = None, g_referrers = None\<rparr>,
              Some \<lparr>g_ref = None, g_referrers = None\<rparr>,
              None,
              Some \<lparr>g_ref = None, g_referrers = None\<rparr>,
              Some \<lparr>g_ref = None, g_referrers = None\<rparr>],
       released = [1, 4, 3, 0], fresh = 5\<rparr>"
  by (simp add: close.simps guard_at_def store_def native_close_def)

section \<open>Database handles: only an owning handle closes the guard\<close>

lemma snapshot_owning:
  "DB_snapshot self dsync dverify dfill h = Inr (S, h') \<Longrightarrow>
   allow_close S \<and> db_prefix S = db_prefix self \<and> db_impl S = length (objs h)
   \<and> guard_at h' (db_impl S) = Some \<lparr>g_ref = Some (fresh h), g_referrers = Some []\<rparr>"
  by (auto simp: DB_snapshot_def Let_def native_new_def MemorySafety_init_def addReferrer_def
      guard_at_store guard_at_def store_def nth_append
      split: option.splits sum.splits if_splits)

text \<open>
  \<open>iterator\<close> gives the new iterator the prefix of the handle, extended by the prefix of
  the call, wraps a new native cursor in a new guard and registers that guard as a
  dependent of the guard of the handle.
\<close>

lemma iterator_registered:
  assumes "DB_iterator self verify fill pfx keys_only h = Inr (it, h')"
  shows "it_prefix it = iterator_prefix self pfx \<and> it_keys_only it = keys_only
       \<and> it_impl it = length (objs h)
       \<and> guard_at h' (it_impl it) = Some \<lparr>g_ref = Some (fresh h), g_referrers = Some []\<rparr>
       \<and> (\<exists>G rs. guard_at h (db_impl self) = Some G \<and> g_referrers G = Some rs
              \<and> guard_at h' (db_impl self)
                  = Some (G\<lparr>g_referrers := Some (List.insert (it_impl it) rs)\<rparr>))"
proof -
  from assms obtain G r where G: "guard_at h (db_impl self) = Some G" and r: "g_ref G = Some r"
    by (auto simp: DB_iterator_def Let_def split: option.splits)
  have lt: "db_impl self < length (objs h)"
    using G by (auto simp: guard_at_def split: if_splits)
  let ?h2 = "h\<lparr>fresh := Suc (fresh h),
               objs := objs h @ [Some \<lparr>g_ref = Some (fresh h), g_referrers = Some []\<rparr>]\<rparr>"
  have g2: "guard_at ?h2 (db_impl self) = Some G"
    using G lt by (simp add: guard_at_def nth_append)
  from assms G r g2 obtain rs where rs: "g_referrers G = Some rs"
    and it: "it = \<lparr>it_impl = length (objs h), it_prefix = iterator_prefix self pfx,
                  it_keys_only = keys_only\<rparr>"
    and h': "h' = store (db_impl self) (G\<lparr>g_referrers := Some (List.insert (length (objs h)) rs)\<rparr>) ?h2"
    by (auto simp: DB_iterator_def Let_def native_new_def MemorySafety_init_def addReferrer_def
        split: option.splits)
  have a: "guard_at h' (length (objs h)) = Some \<lparr>g_ref = Some (fresh h), g_referrers = Some []\<rparr>"
    using lt by (simp add: h' guard_at_def store_def nth_append)
  have b: "guard_at h' (db_impl self)
      = Some (G\<lparr>g_referrers := Some (List.insert (length (objs h)) rs)\<rparr>)"
    using lt by (simp add: h' guard_at_def store_def)
  from G rs a b show ?thesis
    by (simp add: it)
qed

text \<open>
  Claim C8.  \<open>close\<close> of a handle obtained from \<open>scope\<close>, of whatever handle and so also
  of a scoped one, leaves the whole heap as it is: the guard it shares, every other
  guard and the log of released resources.  A \<open>close\<close> that changes the heap is the
  \<open>close\<close> of a handle allowed to close, and that one closes the guard of the handle.
  The handles allowed to close are those made by \<open>_makeDBFromImpl\<close> (opening a store)
  and by \<open>snapshot\<close>; \<open>scope\<close> never makes one.
\<close>

theorem scoped_close_noop:
  "DB_close (scope H p dsync dverify dfill) h = h
   \<and> DB_close (scope (scope H p dsync dverify dfill) q dsync' dverify' dfill') h = h
   \<and> db_impl (scope H p dsync dverify dfill) = db_impl H
   \<and> \<not> allow_close (scope H p dsync dverify dfill)
   \<and> (DB_close H h \<noteq> h \<longrightarrow> allow_close H)
   \<and> (allow_close H \<longrightarrow> DB_close H h = close (db_impl H) h)
   \<and> allow_close (fst (makeDBFromImpl impl ds dv df h))
   \<and> (\<forall>S h'. DB_snapshot H dsync dverify dfill h = Inr (S, h') \<longrightarrow> allow_close S)"
proof -
  have a: "DB_close (scope H p dsync dverify dfill) h = h"
    and b: "DB_close (scope (scope H p dsync dverify dfill) q dsync' dverify' dfill') h = h"
    and c: "db_impl (scope H p dsync dverify dfill) = db_impl H"
    and d: "\<not> allow_close (scope H p dsync dverify dfill)"
    by (simp_all add: DB_close_def scope_def)
  have e: "DB_close H h \<noteq> h \<longrightarrow> allow_close H"
    and f: "allow_close H \<longrightarrow> DB_close H h = close (db_impl H) h"
    by (simp_all add: DB_close_def)
  have g: "allow_close (fst (makeDBFromImpl impl ds dv df h))"
    by (simp add: makeDBFromImpl_def MemorySafety_init_def)
  have s: "\<forall>S h'. DB_snapshot H dsync dverify dfill h = Inr (S, h') \<longrightarrow> allow_close S"
    using snapshot_owning [of H dsync dverify dfill h] by blast
  from a b c d e f g s show ?thesis by blast
qed

theorem scoped_close_noop_witness:
  "DB_close
     (scope \<lparr>db_impl = 0, db_prefix = None, allow_close = True, default_sync = False,
              default_verify_checksums = False, default_fill_cache = True\<rparr> ''ns/'' None None None)
     \<lparr>objs = [Some \<lparr>g_ref = Some 0, g_referrers = Some []\<rparr>], released = [], fresh = 1\<rparr>
     = \<lparr>objs = [Some \<lparr>g_ref = Some 0, g_referrers = Some []\<rparr>], released = [], fresh = 1\<rparr>
   \<and> DB_close
     \<lparr>db_impl = 0, db_prefix = None, allow_close = True, default_sync = False,
        default_verify_checksums = False, default_fill_cache = True\<rparr>
     \<lparr>objs = [Some \<lparr>g_ref = Some 0, g_referrers = Some []\<rparr>], released = [], fresh = 1\<rparr>
     \<noteq> \<lparr>objs = [Some \<lparr>g_ref = Some 0, g_referrers = Some []\<rparr>], released = [], fresh = 1\<rparr>
   \<and> allow_close
     \<lparr>db_impl = 0, db_prefix = None, allow_close = True, default_sync = False,
        default_verify_checksums = False, default_fill_cache = True\<rparr>
   \<and> released (DB_close
     \<lparr>db_impl = 0, db_prefix = None, allow_close = True, default_sync = False,
        default_verify_checksums = False, default_fill_cache = True\<rparr>
     \<lparr>objs = [Some \<lparr>g_ref = Some 0, g_referrers = Some []\<rparr>], released = [], fresh = 1\<rparr>) = [0]
   \<and> DB_snapshot
     \<lparr>db_impl = 0, db_prefix = None, allow_close = True, default_sync = False,
        default_verify_checksums = False, default_fill_cache = True\<rparr> None None None
     \<lparr>objs = [Some \<lparr>g_ref = Some 0, g_referrers = Some []\<rparr>], released = [], fresh = 1\<rparr>
     = Inr (\<lparr>db_impl = 1, db_prefix = None, allow_close = True, default_sync = False,
              default_verify_checksums = False, default_fill_cache = True\<rparr>,
            \<lparr>objs = [Some \<lparr>g_ref = Some 0, g_referrers = Some [1]\<rparr>,
                      Some \<lparr>g_ref = Some 1, g_referrers = Some []\<rparr>],
               released = [], fresh = 2\<rparr>)
   \<and> allow_close
     \<lparr>db_impl = 1, db_prefix = None, allow_close = True, default_sync = False,
        default_verify_checksums = False, default_fill_cache = True\<rparr>"
proof -
  let ?H = "\<lparr>db_impl = 0, db_prefix = None, allow_close = True, default_sync = False,
        default_verify_checksums = False, default_fill_cache = True\<rparr>"
  let ?h = "\<lparr>objs = [Some \<lparr>g_ref = Some 0, g_referrers = Some []\<rparr>], released = [], fresh = 1\<rparr>"
  have c: "DB_close ?H ?h \<noteq> ?h"
    by (simp add: DB_close_def close.simps guard_at_def store_def native_close_def)
  have r: "released (DB_close ?H ?h) = [0]"
    by (simp add: DB_close_def close.simps guard_at_def store_def native_close_def)
  have s: "DB_snapshot ?H None None None ?h
     = Inr (\<lparr>db_impl = 1, db_prefix = None, allow_close = True, default_sync = False,
              default_verify_checksums = False, default_fill_cache = True\<rparr>,
            \<lparr>objs = [Some \<lparr>g_ref = Some 0, g_referrers = Some [1]\<rparr>,
                      Some \<lparr>g_ref = Some 1, g_referrers = Some []\<rparr>],
               released = [], fresh = 2\<rparr>)"
    by (simp add: DB_snapshot_def guard_at_def native_new_def MemorySafety_init_def
        addReferrer_def store_def opt_default_def)
  show ?thesis
    using c r s scoped_close_noop [of ?H "''ns/''" None None None ?h]
    by simp
qed

section \<open>The successor of a prefix computed by \<open>seekLast\<close>\<close>

subsection \<open>From the hexadecimal strings of the source to big-endian arithmetic\<close>

lemma hexdigit_table:
  "list_all (\<lambda>d. digit_val (hexdigit d) = Some d \<and> hexdigit d \<noteq> CHR ''L'') [0..<16]"
  by code_simp

lemma hexdigit_props:
  assumes "d < 16"
  shows "digit_val (hexdigit d) = Some d" "hexdigit d \<noteq> CHR ''L''"
  using hexdigit_table assms by (auto simp: list_all_iff)

lemma hexdigit_0: "hexdigit 0 = CHR ''0''"
  by (simp add: hexdigit_def)

lemma length_encode_hex: "length (encode_hex p) = 2 * length p"
  by (induction p) simp_all

lemma encode_hex_Nil_iff: "encode_hex p = [] \<longleftrightarrow> p = []"
  by (cases p) simp_all

lemma long16_acc_encode:
  "long16_acc acc (encode_hex p) = Inr (foldl (\<lambda>a c. a * 256 + int (of_char c)) acc p)"
proof (induction p arbitrary: acc)
  case Nil
  then show ?case by simp
next
  case (Cons c cs)
  have "(of_char c :: nat) < 16 * 16"
    using nat_of_char_less_256 [of c] by simp
  then have lt: "(of_char c :: nat) div 16 < 16" "(of_char c :: nat) mod 16 < 16"
    by (simp_all add: less_mult_imp_div_less)
  have e: "16 * (16 * acc + int ((of_char c :: nat) div 16)) + int ((of_char c :: nat) mod 16)
         = acc * 256 + int (of_char c)"
    by (simp add: zdiv_int zmod_int) 
  have "long16_acc acc (encode_hex (c # cs))
      = long16_acc (16 * (16 * acc + int ((of_char c :: nat) div 16))
                      + int ((of_char c :: nat) mod 16)) (encode_hex cs)"
    by (simp add: hexdigit_props(1) [OF lt(1)] hexdigit_props(1) [OF lt(2)])
  also have "\<dots> = Inr (foldl (\<lambda>a c. a * 256 + int (of_char c))
      (16 * (16 * acc + int ((of_char c :: nat) div 16)) + int ((of_char c :: nat) mod 16)) cs)"
    by (rule Cons.IH)
  also have "\<dots> = Inr (foldl (\<lambda>a c. a * 256 + int (of_char c)) (acc * 256 + int (of_char c)) cs)"
    by (simp only: e)
  finally show ?case by simp
qed

lemma foldl_int_be:
  "foldl (\<lambda>a c. a * 256 + int (of_char c)) (int acc) p
   = int (foldl (\<lambda>a c. a * 256 + of_char c) acc p)"
proof (induction p arbitrary: acc)
  case Nil
  then show ?case by simp
next
  case (Cons c cs)
  have e: "int acc * 256 + int (of_char c) = int (acc * 256 + of_char c)"
    by simp
  show ?case
    using Cons.IH [of "acc * 256 + of_char c"]
    by (simp only: foldl_Cons e)
qed

lemma long16_encode: "p \<noteq> [] \<Longrightarrow> long16 (encode_hex p) = Inr (int (be_int p))"
  using foldl_int_be [of 0 p]
  by (simp add: long16_def encode_hex_Nil_iff long16_acc_encode be_int_def)

lemma rstrip_snoc_keep: "c \<notin> set chars \<Longrightarrow> rstrip (xs @ [c]) chars = xs @ [c]"
  by (simp add: rstrip_def)

lemma rstrip_snoc_drop: "c \<in> set chars \<Longrightarrow> rstrip (xs @ [c]) chars = rstrip xs chars"
  by (simp add: rstrip_def)

lemma rstrip_replicate:
  "c \<in> set chars \<Longrightarrow> rstrip (xs @ replicate m c) chars = rstrip xs chars"
proof (induction m)
  case 0
  then show ?case by simp
next
  case (Suc m)
  have "xs @ replicate (Suc m) c = (xs @ replicate m c) @ [c]"
    by (simp add: replicate_append_same)
  then show ?case
    using Suc by (simp only: rstrip_snoc_drop)
qed

lemma hex_digits_snoc: "\<exists>ys d. hex_digits n = ys @ [hexdigit d] \<and> d < 16"
proof (cases "n < 16")
  case True
  then have "hex_digits n = [] @ [hexdigit n]" by (simp add: hex_digits.simps)
  with True show ?thesis by blast
next
  case False
  then have "hex_digits n = hex_digits (n div 16) @ [hexdigit (n mod 16)]"
    by (simp add: hex_digits.simps)
  moreover have "n mod 16 < 16" by simp
  ultimately show ?thesis by blast
qed

lemma strip_hex_long:
  assumes "0 \<le> n"
  shows "rstrip (drop 2 (hex_long n)) ''L'' = hex_digits (nat n)"
proof -
  obtain ys d where h: "hex_digits (nat n) = ys @ [hexdigit d]" and d: "d < 16"
    using hex_digits_snoc by blast
  have "drop 2 (hex_long n) = hex_digits (nat n) @ [CHR ''L'']"
    using assms by (simp add: hex_long_def)
  then have "rstrip (drop 2 (hex_long n)) ''L'' = rstrip (hex_digits (nat n)) ''L''"
    by (simp add: rstrip_snoc_drop)
  also have "\<dots> = hex_digits (nat n)"
    unfolding h using hexdigit_props(2) [OF d] by (simp add: rstrip_snoc_keep)
  finally show ?thesis .
qed

lemma fhex_snoc: "fhex (Suc w) n = fhex w (n div 16) @ [hexdigit (n mod 16)]"
proof (induction w)
  case 0
  then show ?case by simp
next
  case (Suc w)
  have "fhex (Suc (Suc w)) n = hexdigit ((n div 16 ^ Suc w) mod 16) # fhex (Suc w) n"
    by simp
  also have "\<dots> = hexdigit ((n div 16 ^ Suc w) mod 16) # fhex w (n div 16) @ [hexdigit (n mod 16)]"
    by (simp only: Suc.IH)
  also have "(n div 16 ^ Suc w) = (n div 16) div 16 ^ w"
    by (simp add: div_mult2_eq)
  finally show ?case by simp
qed

lemma fhex_zero: "fhex w 0 = replicate w (CHR ''0'')"
  by (induction w) (simp_all add: hexdigit_0)

lemma length_hex_digits_le: "n < 16 ^ w \<Longrightarrow> 0 < w \<Longrightarrow> length (hex_digits n) \<le> w"
proof (induction n arbitrary: w rule: hex_digits.induct)
  case (1 n)
  show ?case
  proof (cases "n < 16")
    case True
    then show ?thesis using 1(3) by (simp add: hex_digits.simps)
  next
    case False
    obtain w' where w: "w = Suc w'" using 1(3) by (cases w) auto
    from False 1(2) w have "0 < w'" by (cases w') auto
    moreover from 1(2) w have "n div 16 < 16 ^ w'"
      by (simp add: less_mult_imp_div_less mult.commute)
    ultimately have "length (hex_digits (n div 16)) \<le> w'"
      using 1(1) [OF False] by blast
    then show ?thesis
      using False w by (simp add: hex_digits.simps)
  qed
qed

lemma rjust_hex_digits:
  "n < 16 ^ w \<Longrightarrow> 0 < w \<Longrightarrow> rjust (hex_digits n) w (CHR ''0'') = fhex w n"
proof (induction n arbitrary: w rule: hex_digits.induct)
  case (1 n)
  obtain w' where w: "w = Suc w'" using 1(3) by (cases w) auto
  show ?case
  proof (cases "n < 16")
    case True
    then have "fhex w n = fhex w' 0 @ [hexdigit n]"
      unfolding w by (simp add: fhex_snoc del: fhex.simps)
    then show ?thesis
      using True w by (simp add: hex_digits.simps rjust_def fhex_zero)
  next
    case False
    from False 1(2) w have w': "0 < w'" by (cases w') auto
    from 1(2) w have lt: "n div 16 < 16 ^ w'"
      by (simp add: less_mult_imp_div_less mult.commute)
    have ih: "rjust (hex_digits (n div 16)) w' (CHR ''0'') = fhex w' (n div 16)"
      using 1(1) [OF False lt w'] .
    have "hex_digits n = hex_digits (n div 16) @ [hexdigit (n mod 16)]"
      using False by (simp add: hex_digits.simps)
    then have "rjust (hex_digits n) w (CHR ''0'')
        = rjust (hex_digits (n div 16)) w' (CHR ''0'') @ [hexdigit (n mod 16)]"
      by (simp add: rjust_def w)
    then show ?thesis
      by (simp add: ih w fhex_snoc del: fhex.simps)
  qed
qed

lemma nibbles_of_byte: "(m::nat) mod 256 = 16 * ((m div 16) mod 16) + m mod 16"
  using mod_mult2_eq [of m 16 16] by simp

lemma byte_of_nibbles:
  "16 * ((n div 16 ^ Suc (2 * l)) mod 16) + (n div 16 ^ (2 * l)) mod 16
   = (n div 256 ^ l) mod (256::nat)"
proof -
  let ?m = "n div 256 ^ l"
  have p: "(16::nat) ^ (2 * l) = 256 ^ l"
    by (simp add: power_mult)
  have "(16::nat) ^ Suc (2 * l) = 256 ^ l * 16"
    by (simp add: p)
  then have "n div 16 ^ Suc (2 * l) = n div (256 ^ l * 16)"
    by (simp only:)
  then have "n div 16 ^ Suc (2 * l) = ?m div 16"
    by (simp only: div_mult2_eq)
  moreover have "?m mod 256 = 16 * ((?m div 16) mod 16) + ?m mod 16"
    by (rule nibbles_of_byte)
  ultimately show ?thesis by (simp add: p)
qed

lemma decode_fhex: "decode_hex (fhex (2 * l) n) = Inr (be_bytes l n)"
proof (induction l)
  case 0
  then show ?case by simp
next
  case (Suc l)
  have f: "fhex (2 * Suc l) n
      = hexdigit ((n div 16 ^ Suc (2 * l)) mod 16) # hexdigit ((n div 16 ^ (2 * l)) mod 16)
          # fhex (2 * l) n"
    by simp
  have d1: "digit_val (hexdigit ((n div 16 ^ Suc (2 * l)) mod 16)) = Some ((n div 16 ^ Suc (2 * l)) mod 16)"
    and d2: "digit_val (hexdigit ((n div 16 ^ (2 * l)) mod 16)) = Some ((n div 16 ^ (2 * l)) mod 16)"
    by (simp_all add: hexdigit_props(1))
  have "decode_hex (fhex (2 * Suc l) n)
      = Inr (char_of (16 * ((n div 16 ^ Suc (2 * l)) mod 16) + (n div 16 ^ (2 * l)) mod 16)
             # be_bytes l n)"
    unfolding f by (simp only: decode_hex.simps d1 d2 Suc.IH prod.case option.case sum.case)
  then show ?case
    by (simp only: byte_of_nibbles be_bytes.simps char_of_mod_256)
qed

lemma be_int_snoc: "be_int (xs @ [c]) = be_int xs * 256 + of_char c"
  by (simp add: be_int_def)

lemma be_int_Nil: "be_int [] = 0"
  by (simp add: be_int_def)

lemma be_int_less: "be_int xs < 256 ^ length xs"
proof (induction xs rule: rev_induct)
  case Nil
  then show ?case by (simp add: be_int_Nil)
next
  case (snoc c xs)
  have "(of_char c :: nat) < 256" by simp
  with snoc have "be_int xs * 256 + of_char c < (be_int xs + 1) * 256"
    by simp
  also have "\<dots> \<le> 256 ^ length xs * 256"
    using snoc by (simp add: Suc_leI del: of_nat_mult)
  finally show ?case by (simp add: be_int_snoc)
qed

lemma be_int_max:
  "Suc (be_int xs) = 256 ^ length xs \<Longrightarrow> xs = replicate (length xs) (CHR 0xFF)"
proof (induction xs rule: rev_induct)
  case Nil
  then show ?case by simp
next
  case (snoc c xs)
  have c: "(of_char c :: nat) < 256" by simp
  have b: "be_int xs < 256 ^ length xs" by (rule be_int_less)
  from snoc.prems have e: "be_int xs * 256 + of_char c + 1 = 256 ^ length xs * 256"
    by (simp add: be_int_snoc)
  have m: "be_int xs + 1 = 256 ^ length xs"
  proof (rule ccontr)
    assume "be_int xs + 1 \<noteq> 256 ^ length xs"
    with b have "be_int xs + 2 \<le> 256 ^ length xs" by simp
    then have "(be_int xs + 2) * 256 \<le> 256 ^ length xs * 256"
      by (rule mult_le_mono1)
    then have "be_int xs * 256 + 512 \<le> 256 ^ length xs * 256"
      by (simp add: add_mult_distrib)
    then show False using e c by linarith
  qed
  then have xs: "xs = replicate (length xs) (CHR 0xFF)"
    using snoc.IH by simp
  from m have "(be_int xs + 1) * 256 = 256 ^ length xs * 256"
    by simp
  then have "be_int xs * 256 + 256 = 256 ^ length xs * 256"
    by (simp add: add_mult_distrib)
  with e have "(of_char c :: nat) = 255"
    by linarith
  then have "(of_char c :: nat) = of_char (CHR 0xFF)"
    by simp
  then have "c = CHR 0xFF"
    by (simp only: of_char_eq_iff)
  then have "xs @ [c] = replicate (length xs) (CHR 0xFF) @ [CHR 0xFF]"
    using xs by simp
  then show ?case
    by (simp add: replicate_append_same)
qed

lemma be_int_succ_less:
  assumes "p \<noteq> replicate (length p) (CHR 0xFF)"
  shows "be_int p + 1 < 256 ^ length p"
proof -
  have "Suc (be_int p) \<noteq> 256 ^ length p"
    using assms be_int_max by blast
  moreover have "be_int p < 256 ^ length p"
    by (rule be_int_less)
  ultimately show ?thesis by simp
qed

lemma next_prefix_spec:
  assumes "p \<noteq> replicate (length p) (CHR 0xFF)"
  shows "next_prefix p = Inr (spec_successor p)"
proof -
  from assms have ne: "p \<noteq> []" by auto
  let ?n = "be_int p + 1"
  have l: "long16 (encode_hex p) = Inr (int (be_int p))"
    by (rule long16_encode [OF ne])
  have s: "rstrip (drop 2 (hex_long (int (be_int p) + 1))) ''L'' = hex_digits ?n"
    using strip_hex_long [of "int (be_int p) + 1"] by (simp add: nat_add_distrib)
  have "?n < 256 ^ length p"
    by (rule be_int_succ_less [OF assms])
  also have "(256::nat) ^ length p = 16 ^ (2 * length p)"
    by (simp add: power_mult)
  finally have lt: "?n < 16 ^ (2 * length p)" .
  have pos: "0 < 2 * length p" using ne by simp
  have j: "rjust (hex_digits ?n) (2 * length p) (CHR ''0'') = fhex (2 * length p) ?n"
    by (rule rjust_hex_digits [OF lt pos])
  have d: "decode_hex (fhex (2 * length p) ?n) = Inr (be_bytes (length p) ?n)"
    by (rule decode_fhex)
  show ?thesis
    unfolding next_prefix_def Let_def length_encode_hex l sum.case s j d spec_successor_def
    by simp
qed

subsection \<open>The successor increments the last byte that is not \<open>0xFF\<close>\<close>

lemma be_int_append: "be_int (xs @ ys) = be_int xs * 256 ^ length ys + be_int ys"
proof (induction ys rule: rev_induct)
  case Nil
  then show ?case by (simp add: be_int_Nil)
next
  case (snoc y ys)
  have "be_int (xs @ ys @ [y]) = be_int (xs @ ys) * 256 + of_char y"
    using be_int_snoc [of "xs @ ys" y] by simp
  then show ?case
    by (simp add: snoc be_int_snoc add_mult_distrib)
qed

lemma be_int_replicate_ff: "Suc (be_int (replicate m (CHR 0xFF))) = 256 ^ m"
proof (induction m)
  case 0
  then show ?case by (simp add: be_int_Nil)
next
  case (Suc m)
  have "replicate (Suc m) (CHR 0xFF) = replicate m (CHR 0xFF) @ [CHR 0xFF]"
    by (simp add: replicate_append_same)
  then have "be_int (replicate (Suc m) (CHR 0xFF)) = be_int (replicate m (CHR 0xFF)) * 256 + 255"
    by (simp only: be_int_snoc) simp
  with Suc show ?case by simp
qed

lemma be_bytes_drop_high: "be_bytes l (k * 256 ^ l + n) = be_bytes l n"
proof (induction l arbitrary: k)
  case 0
  then show ?case by simp
next
  case (Suc l)
  have h: "(k * 256 ^ Suc l + n) div 256 ^ l = k * 256 + n div 256 ^ l"
  proof -
    have "k * 256 ^ Suc l + n = n + (k * 256) * 256 ^ l" by simp
    then show ?thesis by (simp only: div_mult_self3) simp
  qed
  have "(k * 256 + n div 256 ^ l) mod 256 = (n div 256 ^ l) mod 256"
    by simp
  then have "char_of ((k * 256 + n div 256 ^ l) mod 256) = char_of ((n div 256 ^ l) mod 256)"
    by (simp only:)
  then have "char_of (k * 256 + n div 256 ^ l) = char_of (n div 256 ^ l)"
    by (simp only: char_of_mod_256)
  moreover have "be_bytes l (k * 256 ^ Suc l + n) = be_bytes l n"
    using Suc [of "k * 256"] by (simp add: mult.assoc)
  ultimately show ?case
    by (simp only: be_bytes.simps h)
qed

lemma char_of_zero: "char_of (0::nat) = CHR 0x00"
proof -
  have "(of_char (char_of (0::nat)) :: nat) = of_char (CHR 0x00)" by simp
  then show ?thesis by (simp only: of_char_eq_iff)
qed

lemma be_bytes_zero: "be_bytes l 0 = replicate l (CHR 0x00)"
  by (induction l) (simp_all add: char_of_zero)

lemma be_bytes_shift: "be_bytes (a + m) (n * 256 ^ m) = be_bytes a n @ replicate m (CHR 0x00)"
proof (induction a)
  case 0
  have "be_bytes m (n * 256 ^ m + 0) = be_bytes m 0"
    by (rule be_bytes_drop_high)
  then show ?case by (simp add: be_bytes_zero)
next
  case (Suc a)
  have "(n * 256 ^ m) div 256 ^ (a + m) = n div 256 ^ a"
    by (simp add: power_add)
  then show ?case
    using Suc by simp
qed

lemma be_int_Cons: "be_int (c # xs) = of_char c * 256 ^ length xs + be_int xs"
  using be_int_append [of "[c]" xs] by (simp add: be_int_def)

lemma be_bytes_be_int: "be_bytes (length xs) (be_int xs) = xs"
proof (induction xs)
  case Nil
  then show ?case by simp
next
  case (Cons c xs)
  have lt: "be_int xs < 256 ^ length xs" by (rule be_int_less)
  have "(of_char c * 256 ^ length xs + be_int xs) div 256 ^ length xs = of_char c"
    using lt by simp
  moreover have "be_bytes (length xs) (of_char c * 256 ^ length xs + be_int xs) = xs"
    using Cons by (simp only: be_bytes_drop_high)
  ultimately show ?case
    by (simp add: be_int_Cons)
qed

lemma spec_successor_inc:
  assumes "(of_char c :: nat) < 255"
  shows "spec_successor (q @ c # replicate m (CHR 0xFF)) = q @ [char_of (Suc (of_char c))]"
proof -
  let ?c' = "char_of (Suc (of_char c)) :: char"
  let ?p = "q @ c # replicate m (CHR 0xFF)"
  have m: "Suc (of_char c) mod 256 = Suc (of_char c)"
    using assms by (intro mod_less) linarith
  have oc: "(of_char ?c' :: nat) = Suc (of_char c)"
    by (simp only: of_char_of m)
  have "be_int ?p = be_int (q @ [c]) * 256 ^ m + be_int (replicate m (CHR 0xFF))"
    using be_int_append [of "q @ [c]" "replicate m (CHR 0xFF)"] by simp
  then have "be_int ?p + 1 = be_int (q @ [c]) * 256 ^ m + 256 ^ m"
    using be_int_replicate_ff [of m] by simp
  also have "\<dots> = (be_int (q @ [c]) + 1) * 256 ^ m"
    by (simp add: add_mult_distrib)
  also have "be_int (q @ [c]) + 1 = be_int (q @ [?c'])"
  proof -
    have "be_int (q @ [?c']) = be_int q * 256 + Suc (of_char c)"
      by (simp only: be_int_snoc oc)
    then show ?thesis
      by (simp only: be_int_snoc)
  qed
  finally have n: "be_int ?p + 1 = be_int (q @ [?c']) * 256 ^ m" .
  have "length ?p = length (q @ [?c']) + m" by simp
  then have "be_bytes (length ?p) (be_int ?p + 1) = (q @ [?c']) @ replicate m (CHR 0x00)"
    by (simp only: n be_bytes_shift be_bytes_be_int)
  then have "spec_successor ?p = rstrip ((q @ [?c']) @ replicate m (CHR 0x00)) [CHR 0x00]"
    by (simp only: spec_successor_def)
  also have "\<dots> = rstrip (q @ [?c']) [CHR 0x00]"
    by (rule rstrip_replicate) simp
  also have "\<dots> = q @ [?c']"
  proof (rule rstrip_snoc_keep)
    have "(of_char ?c' :: nat) \<noteq> of_char (CHR 0x00)"
      by (simp only: oc) simp
    then have "?c' \<noteq> CHR 0x00" by (simp only: of_char_eq_iff) simp
    then show "?c' \<notin> set [CHR 0x00]" by simp
  qed
  finally show ?thesis .
qed

lemma not_all_ff_decomp:
  "p \<noteq> replicate (length p) (CHR 0xFF) \<Longrightarrow>
   \<exists>q c m. p = q @ c # replicate m (CHR 0xFF) \<and> c \<noteq> CHR 0xFF"
proof (induction p rule: rev_induct)
  case Nil
  then show ?case by simp
next
  case (snoc x xs)
  show ?case
  proof (cases "x = CHR 0xFF")
    case False
    then have "xs @ [x] = xs @ x # replicate 0 (CHR 0xFF) \<and> x \<noteq> CHR 0xFF" by simp
    then show ?thesis by blast
  next
    case True
    have "xs \<noteq> replicate (length xs) (CHR 0xFF)"
    proof
      assume "xs = replicate (length xs) (CHR 0xFF)"
      then have "xs @ [x] = replicate (length xs) (CHR 0xFF) @ [CHR 0xFF]"
        using True by simp
      then have "xs @ [x] = replicate (length (xs @ [x])) (CHR 0xFF)"
        by (simp add: replicate_append_same)
      with snoc.prems show False by blast
    qed
    then obtain q c m where "xs = q @ c # replicate m (CHR 0xFF)" and c: "c \<noteq> CHR 0xFF"
      using snoc.IH by blast
    then have "xs @ [x] = q @ c # replicate (Suc m) (CHR 0xFF)"
      using True by (simp add: replicate_append_same)
    with c show ?thesis by blast
  qed
qed

lemma not_ff_less: "c \<noteq> CHR 0xFF \<Longrightarrow> (of_char c :: nat) < 255"
proof -
  assume "c \<noteq> CHR 0xFF"
  then have "(of_char c :: nat) \<noteq> of_char (CHR 0xFF)"
    by (simp only: of_char_eq_iff) simp
  then have "(of_char c :: nat) \<noteq> 255" by simp
  moreover have "(of_char c :: nat) < 256" by simp
  ultimately show ?thesis by linarith
qed

section \<open>Keys and prefixes in the byte order\<close>

lemma take_eq_prefix: "take (length p) k = p \<longleftrightarrow> prefix p k"
  by (metis append_take_drop_id prefix_def append_eq_conv_conj)

lemma append_less_cancel: "p @ a < p @ b \<longleftrightarrow> a < (b :: string)"
  by (induction p) simp_all

lemma append_le_cancel: "p @ a \<le> p @ b \<longleftrightarrow> a \<le> (b :: string)"
  by (induction p) simp_all

lemma prefix_imp_le: "prefix p k \<Longrightarrow> p \<le> (k :: string)"
proof -
  assume "prefix p k"
  then obtain r where "k = p @ r" by (auto simp: prefix_def)
  then show ?thesis using append_le_cancel [of p "[]" r] by simp
qed

text \<open>The keys with a given prefix form an interval of the key order.\<close>

lemma prefix_convex:
  "prefix p k' \<Longrightarrow> p \<le> k \<Longrightarrow> k \<le> k' \<Longrightarrow> prefix p (k :: string)"
proof (induction p arbitrary: k k')
  case Nil
  then show ?case by simp
next
  case (Cons a p)
  from Cons.prems(1) obtain r' where k': "k' = a # r'" and p': "prefix p r'"
    by (cases k') auto
  from Cons.prems(2) obtain b r where k: "k = b # r"
    by (cases k) auto
  from Cons.prems(2,3) k k' have "a = b" "p \<le> r" "r \<le> r'"
    by auto
  with Cons.IH [OF p'] k show ?case by simp
qed

lemma char_le_ff: "(c :: char) \<le> CHR 0xFF"
proof -
  have "(of_char c :: nat) < 256" by simp
  then have "(of_char c :: nat) \<le> 255" by linarith
  then have "(of_char c :: nat) \<le> of_char (CHR 0xFF)" by simp
  then show ?thesis by (simp only: less_eq_char_def)
qed

lemma ge_all_ff_prefix:
  "replicate m (CHR 0xFF) \<le> r \<Longrightarrow> prefix (replicate m (CHR 0xFF)) r"
proof (induction m arbitrary: r)
  case 0
  then show ?case by simp
next
  case (Suc m)
  from Suc.prems obtain d r' where r: "r = d # r'"
    by (cases r) auto
  have "d \<le> CHR 0xFF" by (rule char_le_ff)
  with Suc.prems r have "d = CHR 0xFF" "replicate m (CHR 0xFF) \<le> r'"
    by auto
  with Suc.IH r show ?case by simp
qed

lemma all_ff_upward:
  "prefix (replicate m (CHR 0xFF)) k \<Longrightarrow> k \<le> k' \<Longrightarrow> prefix (replicate m (CHR 0xFF)) k'"
  using prefix_imp_le ge_all_ff_prefix order_trans by blast

text \<open>A key without the prefix \<open>q\<close> compares with every extension of \<open>q\<close> as with \<open>q\<close>.\<close>

lemma less_append_no_prefix:
  "\<not> prefix q k \<Longrightarrow> k < q @ x \<longleftrightarrow> k < (q :: string)"
proof (induction q arbitrary: k)
  case Nil
  then show ?case by simp
next
  case (Cons a q)
  show ?case
  proof (cases k)
    case Nil
    then show ?thesis by simp
  next
    case (Cons b r)
    with Cons.prems Cons.IH [of r] show ?thesis by auto
  qed
qed

lemma char_succ_le:
  assumes "c < d"
  shows "char_of (Suc (of_char c)) \<le> (d :: char)"
proof -
  from assms have lt: "(of_char c :: nat) < of_char d"
    by (simp only: less_char_def)
  have "(of_char d :: nat) < 256" by simp
  with lt have "Suc (of_char c) mod 256 = Suc (of_char c)"
    by (intro mod_less) linarith
  then have "(of_char (char_of (Suc (of_char c)) :: char) :: nat) = Suc (of_char c)"
    by (simp only: of_char_of)
  with lt show ?thesis
    by (simp only: less_eq_char_def)
qed

lemma char_less_succ:
  assumes "(of_char c :: nat) < 255"
  shows "c < char_of (Suc (of_char c))"
proof -
  from assms have "Suc (of_char c) mod 256 = Suc (of_char c)"
    by (intro mod_less) linarith
  then have "(of_char (char_of (Suc (of_char c)) :: char) :: nat) = Suc (of_char c)"
    by (simp only: of_char_of)
  then show ?thesis
    by (simp only: less_char_def)
qed

text \<open>
  The successor \<open>q @ [c + 1]\<close> of the prefix \<open>q @ c # 0xFF\<dots>\<close> is a strict upper bound
  of the keys with the prefix, and no key lies in between.
\<close>

lemma succ_upper:
  assumes "(of_char c :: nat) < 255" and "prefix (q @ c # replicate m (CHR 0xFF)) k"
  shows "k < q @ [char_of (Suc (of_char c))]"
proof -
  from assms(2) obtain t where "k = q @ (c # replicate m (CHR 0xFF) @ t)"
    by (auto simp: prefix_def)
  then show ?thesis
    using char_less_succ [OF assms(1)] by (simp only: append_less_cancel) simp
qed

lemma succ_least:
  assumes "(of_char c :: nat) < 255"
    and "q @ c # replicate m (CHR 0xFF) \<le> k"
    and "\<not> prefix (q @ c # replicate m (CHR 0xFF)) k"
  shows "q @ [char_of (Suc (of_char c))] \<le> k"
proof (cases "prefix q k")
  case False
  from assms(2) have "\<not> k < q @ c # replicate m (CHR 0xFF)" by simp
  then have "\<not> k < q"
    using less_append_no_prefix [OF False] by blast
  then have "\<not> k < q @ [char_of (Suc (of_char c))]"
    using less_append_no_prefix [OF False] by blast
  then show ?thesis by simp
next
  case True
  then obtain r where k: "k = q @ r" by (auto simp: prefix_def)
  from assms(2) k have le: "c # replicate m (CHR 0xFF) \<le> r"
    by (simp only: append_le_cancel)
  from assms(3) k have np: "\<not> prefix (c # replicate m (CHR 0xFF)) r"
    by simp
  from le obtain d r' where r: "r = d # r'"
    by (cases r) auto
  have "c < d"
  proof (rule ccontr)
    assume "\<not> c < d"
    with le r have "c = d" "replicate m (CHR 0xFF) \<le> r'" by auto
    then have "prefix (c # replicate m (CHR 0xFF)) r"
      using ge_all_ff_prefix r by simp
    with np show False ..
  qed
  then have "char_of (Suc (of_char c)) \<le> d" by (rule char_succ_le)
  then have "[char_of (Suc (of_char c))] \<le> d # r'" by auto
  then show ?thesis
    unfolding k r by (simp only: append_le_cancel)
qed

section \<open>Iteration\<close>

subsection \<open>The iterator operations with the cursor on a given entry\<close>

lemma first_ge_pos: "first_ge K es = pos_of es (length (takeWhile (\<lambda>e. fst e < K) es))"
  by (induction es) (auto simp: pos_of_def)

lemma pfx_of_at_pos [simp]: "pfx_of (at_pos it es i) = pfx_of it"
  by (simp add: pfx_of_def at_pos_def)

lemma keys_only_at_pos [simp]: "it_keys_only (at_pos it es i) = it_keys_only it"
  by (simp add: at_pos_def)

lemma item_of_at_pos [simp]: "item_of (at_pos it es i) = item_of it"
  by (rule ext) (simp add: item_of_def)

lemma at_pos_at_pos [simp]: "at_pos (at_pos it es i) es' j = at_pos it es' j"
  by (simp add: at_pos_def)

lemma Iterator_seek_at:
  "c_entries (it_impl it) = es \<Longrightarrow>
   Iterator_seek it key = at_pos it es (length (takeWhile (\<lambda>e. fst e < pfx_of it @ key) es))"
  by (cases "it_impl it")
     (auto simp: Iterator_seek_def c_seek_def at_pos_def pfx_of_def first_ge_pos Let_def
       split: option.splits)

lemma Iterator_seekFirst_at:
  "c_entries (it_impl it) = es \<Longrightarrow>
   Iterator_seekFirst it = at_pos it es (length (takeWhile (\<lambda>e. fst e < pfx_of it) es))"
  by (cases "it_impl it"; cases es)
     (auto simp: Iterator_seekFirst_def c_seek_def c_seekFirst_def at_pos_def pfx_of_def
       first_ge_pos pos_of_def split: option.splits)

lemma Iterator_valid_at:
  "Iterator_valid (at_pos it es i) = Inr (i < length es \<and> prefix (pfx_of it) (fst (es ! i)))"
  by (auto simp: Iterator_valid_def at_pos_def pos_of_def c_valid_def c_key_def pfx_of_def
      take_eq_prefix Let_def split: option.splits)

lemma Iterator_key_at:
  "Iterator_key (at_pos it es i) =
     (if i < length es then Inr (drop (length (pfx_of it)) (fst (es ! i))) else Inl InvalidCursor)"
  by (auto simp: Iterator_key_def at_pos_def pos_of_def c_key_def pfx_of_def
      split: option.splits)

lemma it_impl_at_pos: "it_impl (at_pos it es i) = \<lparr>c_entries = es, c_pos = pos_of es i\<rparr>"
  by (simp add: at_pos_def)

lemma at_pos_update: "(at_pos it es i)\<lparr>it_impl := \<lparr>c_entries = es', c_pos = pos_of es' j\<rparr>\<rparr> = at_pos it es' j"
  by (simp add: at_pos_def)

lemma c_next_at:
  "i < length es \<Longrightarrow>
   c_next \<lparr>c_entries = es, c_pos = pos_of es i\<rparr> = Inr \<lparr>c_entries = es, c_pos = pos_of es (Suc i)\<rparr>"
  by (simp add: c_next_def pos_of_def)

lemma c_val_at:
  "i < length es \<Longrightarrow> c_val \<lparr>c_entries = es, c_pos = pos_of es i\<rparr> = Inr (snd (es ! i))"
  by (simp add: c_val_def pos_of_def)

lemma Iterator_next_at:
  "Iterator_next (at_pos it es i) =
     (if i < length es \<and> prefix (pfx_of it) (fst (es ! i))
      then Inr (item_of it (es ! i), at_pos it es (Suc i))
      else Inl StopIteration)"
proof (cases "i < length es \<and> prefix (pfx_of it) (fst (es ! i))")
  case True
  then show ?thesis
    by (simp add: Iterator_next_def Iterator_valid_at Iterator_key_at Iterator_value_def
        it_impl_at_pos c_val_at c_next_at at_pos_update item_of_def)
next
  case False
  then show ?thesis
    by (simp add: Iterator_next_def Iterator_valid_at)
qed

lemma next_all_at:
  "next_all (at_pos it es i) =
     (map (item_of it) (takeWhile (\<lambda>e. prefix (pfx_of it) (fst e)) (drop i es)),
      StopIteration,
      at_pos it es (i + length (takeWhile (\<lambda>e. prefix (pfx_of it) (fst e)) (drop i es))))"
proof (induction "length es - i" arbitrary: i)
  case 0
  then have "drop i es = []" by simp
  moreover have "\<not> i < length es" using 0 by simp
  ultimately show ?case
    by (subst next_all.simps) (simp add: Iterator_next_at)
next
  case (Suc n)
  then have lt: "i < length es" by simp
  then have d: "drop i es = es ! i # drop (Suc i) es"
    by (simp add: Cons_nth_drop_Suc)
  show ?case
  proof (cases "prefix (pfx_of it) (fst (es ! i))")
    case False
    then show ?thesis
      by (subst next_all.simps) (simp add: Iterator_next_at d)
  next
    case True
    have "n = length es - Suc i" using Suc(2) by simp
    note ih = Suc(1) [OF this]
    show ?thesis
      by (subst next_all.simps) (simp add: Iterator_next_at lt True ih d)
  qed
qed

lemma range_loop_stop:
  "\<not> (i < length es \<and> prefix (pfx_of it) (fst (es ! i))) \<Longrightarrow>
   range_loop (at_pos it es i) end_key end_inclusive = ([], None)"
  by (subst range_loop.simps) (auto simp: Iterator_next_at)

lemma range_loop_step:
  assumes "\<not> it_keys_only it" and "i < length es" and "prefix (pfx_of it) (fst (es ! i))"
  shows "range_loop (at_pos it es i) end_key end_inclusive =
     (if past_end it end_key end_inclusive (es ! i) then ([], None)
      else (case range_loop (at_pos it es (Suc i)) end_key end_inclusive of
              (rows, e) \<Rightarrow> (item_of it (es ! i) # rows, e)))"
proof -
  have rk: "row_key (item_of it (es ! i)) = Inr (drop (length (pfx_of it)) (fst (es ! i)))"
    using assms(1) by (simp add: row_key_def item_of_def)
  show ?thesis
    by (subst range_loop.simps)
       (auto simp: Iterator_next_at assms(2,3) rk past_end_def split: option.splits)
qed

lemma range_loop_at:
  assumes "\<not> it_keys_only it"
  shows "range_loop (at_pos it es i) end_key end_inclusive =
     (map (item_of it)
        (takeWhile (\<lambda>e. prefix (pfx_of it) (fst e) \<and> \<not> past_end it end_key end_inclusive e)
           (drop i es)),
      None)"
proof (induction "length es - i" arbitrary: i)
  case 0
  then have "drop i es = []" by simp
  moreover have "\<not> i < length es" using 0 by simp
  ultimately show ?case
    by (simp add: range_loop_stop)
next
  case (Suc n)
  then have lt: "i < length es" by simp
  then have d: "drop i es = es ! i # drop (Suc i) es"
    by (simp add: Cons_nth_drop_Suc)
  show ?case
  proof (cases "prefix (pfx_of it) (fst (es ! i))")
    case False
    then show ?thesis
      by (simp add: range_loop_stop d)
  next
    case True
    have "n = length es - Suc i" using Suc(2) by simp
    note ih = Suc(1) [OF this]
    show ?thesis
      by (simp add: range_loop_step [OF assms lt True] ih d True)
  qed
qed

subsection \<open>Scanning a sorted store\<close>

lemma takeWhile_filter_sorted:
  "sorted_wrt (\<lambda>a b. Q b \<longrightarrow> Q a) xs \<Longrightarrow> takeWhile Q xs = filter Q xs"
proof (induction xs)
  case Nil
  then show ?case by simp
next
  case (Cons x xs)
  show ?case
  proof (cases "Q x")
    case True
    with Cons show ?thesis by simp
  next
    case False
    with Cons.prems have "\<forall>y \<in> set xs. \<not> Q y" by auto
    then have "filter Q xs = []" by (simp add: filter_empty_conv)
    with False show ?thesis by simp
  qed
qed

lemma dropWhile_filter_sorted:
  "sorted_wrt (\<lambda>a b. R b \<longrightarrow> R a) xs \<Longrightarrow> dropWhile R xs = filter (\<lambda>x. \<not> R x) xs"
proof (induction xs)
  case Nil
  then show ?case by simp
next
  case (Cons x xs)
  show ?case
  proof (cases "R x")
    case True
    with Cons show ?thesis by simp
  next
    case False
    with Cons.prems have "\<forall>y \<in> set xs. \<not> R y" by auto
    then have "filter (\<lambda>x. \<not> R x) xs = xs" by (simp add: filter_id_conv)
    with False show ?thesis by simp
  qed
qed

lemma store_sorted_fst: "store_sorted es \<longleftrightarrow> sorted_wrt (\<lambda>a b. fst a < fst b) es"
  by (simp add: store_sorted_def sorted_wrt_map)

text \<open>
  In a sorted store, the entries from the first key at least \<open>K\<close> on are those with a
  key at least \<open>K\<close>.
\<close>

lemma drop_seek_sorted:
  assumes "store_sorted es"
  shows "drop (length (takeWhile (\<lambda>e. fst e < K) es)) es = filter (\<lambda>e. K \<le> fst e) es"
proof -
  have "sorted_wrt (\<lambda>a b. fst b < K \<longrightarrow> fst a < K) es"
    using assms unfolding store_sorted_fst
    by (rule sorted_wrt_mono_rel [rotated]) auto
  then have "dropWhile (\<lambda>e. fst e < K) es = filter (\<lambda>e. \<not> fst e < K) es"
    by (rule dropWhile_filter_sorted)
  then show ?thesis
    by (simp add: dropWhile_eq_drop [symmetric] not_less)
qed

text \<open>
  Scanning a sorted store from the first key at least \<open>K\<close> while a property holds that,
  among the keys at least \<open>K\<close>, is inherited by smaller keys, collects exactly the
  entries with a key at least \<open>K\<close> that have the property.
\<close>

lemma scan_sorted:
  assumes "store_sorted es"
    and "\<And>a b. K \<le> fst a \<Longrightarrow> fst a < fst b \<Longrightarrow> Q b \<Longrightarrow> Q a"
  shows "takeWhile Q (drop (length (takeWhile (\<lambda>e. fst e < K) es)) es)
         = filter (\<lambda>e. K \<le> fst e \<and> Q e) es"
proof -
  let ?xs = "filter (\<lambda>e. K \<le> fst e) es"
  have "sorted_wrt (\<lambda>a b. fst a < fst b) ?xs"
    using assms(1) unfolding store_sorted_fst by (rule sorted_wrt_filter)
  then have "sorted_wrt (\<lambda>a b. Q b \<longrightarrow> Q a) ?xs"
    by (rule sorted_wrt_mono_rel [rotated]) (use assms(2) in auto)
  then have "takeWhile Q ?xs = filter Q ?xs"
    by (rule takeWhile_filter_sorted)
  then show ?thesis
    by (simp add: drop_seek_sorted [OF assms(1)] conj_commute)
qed

subsection \<open>Forward iteration under a prefix\<close>

lemma filter_prefix_ge:
  "filter (\<lambda>e. P \<le> fst e \<and> prefix P (fst e)) es = filter (\<lambda>e. prefix P (fst e)) (es :: (string \<times> string) list)"
  by (rule filter_cong) (auto dest: prefix_imp_le)

lemma next_all_seekFirst:
  assumes "store_sorted es" and "c_entries (it_impl it) = es"
  shows "next_all (Iterator_seekFirst it) =
     (map (item_of it) (filter (\<lambda>e. prefix (pfx_of it) (fst e)) es),
      StopIteration,
      at_pos it es (length (takeWhile (\<lambda>e. fst e < pfx_of it) es)
        + length (filter (\<lambda>e. prefix (pfx_of it) (fst e)) es)))"
proof -
  let ?P = "pfx_of it"
  let ?n = "length (takeWhile (\<lambda>e. fst e < ?P) es)"
  have s: "takeWhile (\<lambda>e. prefix ?P (fst e)) (drop ?n es) = filter (\<lambda>e. prefix ?P (fst e)) es"
    using scan_sorted [OF assms(1), of ?P "\<lambda>e. prefix ?P (fst e)"] prefix_convex
    by (simp add: filter_prefix_ge)
  show ?thesis
    by (simp add: Iterator_seekFirst_at [OF assms(2)] next_all_at s)
qed

lemma exhausted_stays:
  "Iterator_next (at_pos it es (i + length (takeWhile (\<lambda>e. prefix (pfx_of it) (fst e)) (drop i es))))
   = Inl StopIteration"
proof -
  let ?Q = "\<lambda>e. prefix (pfx_of it) (fst e)"
  let ?t = "takeWhile ?Q (drop i es)"
  let ?j = "i + length ?t"
  have "\<not> (?j < length es \<and> ?Q (es ! ?j))"
  proof
    assume a: "?j < length es \<and> ?Q (es ! ?j)"
    then have "length ?t < length (drop i es)" by auto
    then have "\<not> ?Q (drop i es ! length ?t)"
      by (rule nth_length_takeWhile)
    moreover have "drop i es ! length ?t = es ! ?j"
      using a by simp
    ultimately show False using a by simp
  qed
  then show ?thesis
    by (simp add: Iterator_next_at)
qed

lemma stripped_sorted:
  assumes "store_sorted es"
  shows "sorted_wrt (<) (map (\<lambda>e. drop (length P) (fst e)) (filter (\<lambda>e. prefix P (fst e)) es))"
proof -
  let ?xs = "filter (\<lambda>e. prefix P (fst e)) es"
  have "sorted_wrt (\<lambda>a b. fst a < fst b) ?xs"
    using assms unfolding store_sorted_fst by (rule sorted_wrt_filter)
  then have "sorted_wrt (\<lambda>a b. drop (length P) (fst a) < drop (length P) (fst b)) ?xs"
  proof (rule sorted_wrt_mono_rel [rotated])
    fix a b assume "a \<in> set ?xs" "b \<in> set ?xs" "fst a < fst b"
    then obtain ra rb where "fst a = P @ ra" "fst b = P @ rb" "P @ ra < P @ rb"
      by (auto simp: prefix_def)
    then show "drop (length P) (fst a) < drop (length P) (fst b)"
      by (simp add: append_less_cancel)
  qed
  then show ?thesis by (simp add: sorted_wrt_map)
qed

text \<open>
  Claim C1.  On a store sorted by key, an iterator with prefix \<open>P\<close> that is not
  keys-only, after \<open>seekFirst()\<close>, returns from successive calls of \<open>next()\<close> exactly
  the rows of the store whose key starts with \<open>P\<close>, in the order of the store and so in
  ascending order of the keys returned, each with \<open>P\<close> taken off its key.  The call
  after the last row raises \<open>StopIteration\<close>, and so does every call after that.  The
  iterator that \<open>iterator()\<close> of a handle scoped to \<open>P\<close> builds when given no prefix of
  its own has the prefix of that handle.
\<close>

theorem prefixed_iteration:
  assumes "store_sorted es"
  shows "fst (next_all (Iterator_seekFirst
            \<lparr>it_impl = \<lparr>c_entries = es, c_pos = p0\<rparr>, it_prefix = Some P, it_keys_only = False\<rparr>))
           = map (\<lambda>(k, v). Row (drop (length P) k) v) (filter (\<lambda>(k, v). prefix P k) es)
       \<and> fst (snd (next_all (Iterator_seekFirst
            \<lparr>it_impl = \<lparr>c_entries = es, c_pos = p0\<rparr>, it_prefix = Some P, it_keys_only = False\<rparr>)))
           = StopIteration
       \<and> Iterator_next (snd (snd (next_all (Iterator_seekFirst
            \<lparr>it_impl = \<lparr>c_entries = es, c_pos = p0\<rparr>, it_prefix = Some P, it_keys_only = False\<rparr>))))
           = Inl StopIteration
       \<and> sorted_wrt (<) (map (\<lambda>(k, v). drop (length P) k) (filter (\<lambda>(k, v). prefix P k) es))
       \<and> iterator_prefix (scope H P dsync dverify dfill) None = Some (db_key H P)"
proof -
  let ?it = "\<lparr>it_impl = \<lparr>c_entries = es, c_pos = p0\<rparr>, it_prefix = Some P, it_keys_only = False\<rparr>"
  have p: "pfx_of ?it = P" by (simp add: pfx_of_def)
  have e: "c_entries (it_impl ?it) = es" by simp
  note n = next_all_seekFirst [OF assms e, unfolded p]
  have i: "item_of ?it = (\<lambda>(k, v). Row (drop (length P) k) v)"
    by (rule ext) (simp add: item_of_def p case_prod_beta)
  have f: "(\<lambda>e. prefix P (fst e)) = (\<lambda>(k, v). prefix P k)"
    by (rule ext) (simp add: case_prod_beta)
  have a: "fst (next_all (Iterator_seekFirst ?it))
           = map (\<lambda>(k, v). Row (drop (length P) k) v) (filter (\<lambda>(k, v). prefix P k) es)"
    by (simp add: n i f)
  have b: "fst (snd (next_all (Iterator_seekFirst ?it))) = StopIteration"
    by (simp add: n)
  have "snd (snd (next_all (Iterator_seekFirst ?it)))
      = at_pos ?it es (length (takeWhile (\<lambda>e. fst e < P) es)
          + length (takeWhile (\<lambda>e. prefix (pfx_of ?it) (fst e))
              (drop (length (takeWhile (\<lambda>e. fst e < P) es)) es)))"
    using next_all_at [of ?it es "length (takeWhile (\<lambda>e. fst e < P) es)"]
    by (simp add: Iterator_seekFirst_at [OF e] p)
  then have c: "Iterator_next (snd (snd (next_all (Iterator_seekFirst ?it)))) = Inl StopIteration"
    by (simp only: exhausted_stays)
  have d: "sorted_wrt (<) (map (\<lambda>(k, v). drop (length P) k) (filter (\<lambda>(k, v). prefix P k) es))"
    using stripped_sorted [OF assms, of P] by (simp add: case_prod_unfold)
  have s: "iterator_prefix (scope H P dsync dverify dfill) None = Some (db_key H P)"
    by (simp add: iterator_prefix_def scope_def db_key_def)
  from a b c d s show ?thesis by blast
qed

theorem prefixed_iteration_witness:
  "store_sorted [(''a'', ''0''), (''ns/x'', ''1''), (''ns/y'', ''2''), (''nt'', ''3'')]
   \<and> fst (next_all (Iterator_seekFirst
        \<lparr>it_impl = \<lparr>c_entries = [(''a'', ''0''), (''ns/x'', ''1''), (''ns/y'', ''2''), (''nt'', ''3'')],
                     c_pos = None\<rparr>,
           it_prefix = Some ''ns/'', it_keys_only = False\<rparr>))
     = [Row ''x'' ''1'', Row ''y'' ''2'']"
proof -
  have s: "store_sorted [(''a'', ''0''), (''ns/x'', ''1''), (''ns/y'', ''2''), (''nt'', ''3'')]"
    by (simp add: store_sorted_def)
  show ?thesis
    using s prefixed_iteration [OF s, of None "''ns/''"]
    by simp
qed

subsection \<open>\<open>seekLast\<close> under a prefix\<close>

lemma pos_of_last_pos:
  "n \<le> length es \<Longrightarrow> pos_of es (last_pos es n) = (if n = 0 then None else Some (n - 1))"
  by (auto simp: pos_of_def last_pos_def)

lemma c_seekLast_at:
  "c_seekLast \<lparr>c_entries = es, c_pos = p\<rparr> = \<lparr>c_entries = es, c_pos = pos_of es (last_pos es (length es))\<rparr>"
  by (simp add: c_seekLast_def pos_of_last_pos)

lemma seek_prev_or_last:
  fixes es :: "(string \<times> string) list" and np :: string
  defines "n \<equiv> length (takeWhile (\<lambda>e. fst e < np) es)"
  shows "(let ref = c_seek np \<lparr>c_entries = es, c_pos = p\<rparr>
          in if c_valid ref
             then (case c_prev ref of Inl e \<Rightarrow> Inl e | Inr ref \<Rightarrow> Inr (it\<lparr>it_impl := ref\<rparr>))
             else Inr (it\<lparr>it_impl := c_seekLast ref\<rparr>))
         = Inr (at_pos it es (last_pos es n))"
proof -
  have le: "n \<le> length es"
    unfolding n_def by (rule length_takeWhile_le)
  have s: "c_seek np \<lparr>c_entries = es, c_pos = p\<rparr> = \<lparr>c_entries = es, c_pos = pos_of es n\<rparr>"
    by (simp add: c_seek_def first_ge_pos n_def)
  show ?thesis
  proof (cases "n < length es")
    case True
    then show ?thesis
      unfolding Let_def s
      by (simp add: c_valid_def c_prev_def pos_of_def at_pos_def last_pos_def)
  next
    case False
    with le have "n = length es" by simp
    then show ?thesis
      unfolding Let_def s
      by (simp add: c_valid_def pos_of_def at_pos_def c_seekLast_at)
  qed
qed

lemma last_below:
  fixes es :: "(string \<times> string) list" and B :: "string \<Rightarrow> bool"
  assumes sorted: "store_sorted es"
    and dc: "\<forall>a b. a < b \<longrightarrow> B b \<longrightarrow> B a"
    and inB: "\<forall>k. prefix P k \<longrightarrow> B k"
    and up: "\<forall>k k'. B k \<longrightarrow> prefix P k' \<longrightarrow> k' \<le> k \<longrightarrow> prefix P k"
    and e: "e \<in> set es" "prefix P (fst e)"
  defines "n \<equiv> length (takeWhile (\<lambda>e. B (fst e)) es)"
  shows "0 < n \<and> n \<le> length es \<and> prefix P (fst (es ! (n - 1))) \<and> fst e \<le> fst (es ! (n - 1))"
proof -
  let ?t = "takeWhile (\<lambda>e. B (fst e)) es"
  have "sorted_wrt (\<lambda>a b. B (fst b) \<longrightarrow> B (fst a)) es"
    using sorted unfolding store_sorted_fst
    by (rule sorted_wrt_mono_rel [rotated]) (use dc in blast)
  then have tf: "?t = filter (\<lambda>e. B (fst e)) es"
    by (rule takeWhile_filter_sorted)
  have "e \<in> set ?t"
    unfolding tf using e inB by simp
  then obtain j where j: "j < n" "?t ! j = e"
    unfolding n_def by (auto simp: in_set_conv_nth)
  then have pos: "0 < n" by simp
  have le: "n \<le> length es"
    unfolding n_def by (rule length_takeWhile_le)
  have nth: "\<And>i. i < n \<Longrightarrow> ?t ! i = es ! i"
    unfolding n_def by (rule takeWhile_nth)
  have ej: "es ! j = e" using j nth by simp
  have "?t ! (n - 1) \<in> set ?t"
    using pos unfolding n_def by simp
  then have Bl: "B (fst (es ! (n - 1)))"
    using nth [of "n - 1"] pos by (auto dest: set_takeWhileD)
  have ord: "fst e \<le> fst (es ! (n - 1))"
  proof (cases "j = n - 1")
    case True
    with ej show ?thesis by simp
  next
    case False
    with j have jl: "j < n - 1" by simp
    have nl: "n - 1 < length es" using pos le by simp
    from sorted [unfolded store_sorted_fst] jl nl
    have "fst (es ! j) < fst (es ! (n - 1))"
      by (rule sorted_wrt_nth_less)
    with ej show ?thesis by simp
  qed
  have "prefix P (fst (es ! (n - 1)))"
    using up Bl e(2) ord by blast
  with pos le ord show ?thesis by simp
qed

lemma valid_last_pos:
  fixes es :: "(string \<times> string) list" and B :: "string \<Rightarrow> bool"
  assumes sorted: "store_sorted es"
    and dc: "\<forall>a b. a < b \<longrightarrow> B b \<longrightarrow> B a"
    and inB: "\<forall>k. prefix P k \<longrightarrow> B k"
    and up: "\<forall>k k'. B k \<longrightarrow> prefix P k' \<longrightarrow> k' \<le> k \<longrightarrow> prefix P k"
    and P: "pfx_of it = P"
  defines "n \<equiv> length (takeWhile (\<lambda>e. B (fst e)) es)"
  shows "Iterator_valid (at_pos it es (last_pos es n)) = Inr (\<exists>k \<in> fst ` set es. prefix P k)"
    and "(\<exists>k \<in> fst ` set es. prefix P k) \<longrightarrow>
          (\<exists>K. c_key (it_impl (at_pos it es (last_pos es n))) = Inr K
               \<and> K \<in> fst ` set es \<and> prefix P K
               \<and> (\<forall>k \<in> fst ` set es. prefix P k \<longrightarrow> k \<le> K))"
proof -
  have le: "n \<le> length es"
    unfolding n_def by (rule length_takeWhile_le)
  show "Iterator_valid (at_pos it es (last_pos es n)) = Inr (\<exists>k \<in> fst ` set es. prefix P k)"
  proof (cases "\<exists>k \<in> fst ` set es. prefix P k")
    case True
    then obtain e where "e \<in> set es" "prefix P (fst e)" by auto
    from last_below [where B = B, OF sorted dc inB up this] have
      "0 < n" "n \<le> length es" "prefix P (fst (es ! (n - 1)))"
      unfolding n_def by blast+
    with True show ?thesis
      by (simp add: Iterator_valid_at P last_pos_def)
  next
    case False
    have "\<not> (last_pos es n < length es \<and> prefix P (fst (es ! last_pos es n)))"
    proof
      assume a: "last_pos es n < length es \<and> prefix P (fst (es ! last_pos es n))"
      then have "es ! last_pos es n \<in> set es" by simp
      with a False show False by blast
    qed
    with False show ?thesis
      by (simp add: Iterator_valid_at P)
  qed
  show "(\<exists>k \<in> fst ` set es. prefix P k) \<longrightarrow>
          (\<exists>K. c_key (it_impl (at_pos it es (last_pos es n))) = Inr K
               \<and> K \<in> fst ` set es \<and> prefix P K
               \<and> (\<forall>k \<in> fst ` set es. prefix P k \<longrightarrow> k \<le> K))"
  proof
    assume "\<exists>k \<in> fst ` set es. prefix P k"
    then obtain e where e: "e \<in> set es" "prefix P (fst e)" by auto
    from last_below [where B = B, OF sorted dc inB up e] have
      pos: "0 < n" and pl: "prefix P (fst (es ! (n - 1)))"
      unfolding n_def by blast+
    have lt: "n - 1 < length es" using pos le by simp
    have k: "c_key (it_impl (at_pos it es (last_pos es n))) = Inr (fst (es ! (n - 1)))"
      using pos lt by (simp add: it_impl_at_pos c_key_def pos_of_def last_pos_def)
    have m: "fst (es ! (n - 1)) \<in> fst ` set es"
      using lt by simp
    have mx: "\<forall>k \<in> fst ` set es. prefix P k \<longrightarrow> k \<le> fst (es ! (n - 1))"
    proof (intro ballI impI)
      fix k assume "k \<in> fst ` set es" "prefix P k"
      then obtain e' where e': "e' \<in> set es" "prefix P (fst e')" and k: "k = fst e'" by auto
      from last_below [where B = B, OF sorted dc inB up e'] k show "k \<le> fst (es ! (n - 1))"
        unfolding n_def by blast
    qed
    from k m pl mx show "\<exists>K. c_key (it_impl (at_pos it es (last_pos es n))) = Inr K
               \<and> K \<in> fst ` set es \<and> prefix P K
               \<and> (\<forall>k \<in> fst ` set es. prefix P k \<longrightarrow> k \<le> K)"
      by blast
  qed
qed

lemma takeWhile_True_length: "length (takeWhile (\<lambda>e. True) es) = length es"
  by (induction es) simp_all

lemma seekLast_all_ff:
  assumes "P = replicate (length P) (CHR 0xFF)"
  shows "Iterator_seekLast \<lparr>it_impl = \<lparr>c_entries = es, c_pos = p0\<rparr>, it_prefix = Some P, it_keys_only = ko\<rparr>
       = Inr (at_pos \<lparr>it_impl = \<lparr>c_entries = es, c_pos = p0\<rparr>, it_prefix = Some P, it_keys_only = ko\<rparr>
                es (last_pos es (length (takeWhile (\<lambda>e. True) es))))"
  using assms by (simp add: Iterator_seekLast_def c_seekLast_at at_pos_def takeWhile_True_length)

lemma seekLast_successor:
  assumes "P \<noteq> replicate (length P) (CHR 0xFF)"
  shows "Iterator_seekLast \<lparr>it_impl = \<lparr>c_entries = es, c_pos = p0\<rparr>, it_prefix = Some P, it_keys_only = ko\<rparr>
       = Inr (at_pos \<lparr>it_impl = \<lparr>c_entries = es, c_pos = p0\<rparr>, it_prefix = Some P, it_keys_only = ko\<rparr>
                es (last_pos es (length (takeWhile (\<lambda>e. fst e < spec_successor P) es))))"
proof -
  let ?it = "\<lparr>it_impl = \<lparr>c_entries = es, c_pos = p0\<rparr>, it_prefix = Some P, it_keys_only = ko\<rparr>"
  have "Iterator_seekLast ?it =
      (let ref = c_seek (spec_successor P) \<lparr>c_entries = es, c_pos = p0\<rparr>
       in if c_valid ref
          then (case c_prev ref of Inl e \<Rightarrow> Inl e | Inr ref \<Rightarrow> Inr (?it\<lparr>it_impl := ref\<rparr>))
          else Inr (?it\<lparr>it_impl := c_seekLast ref\<rparr>))"
    using assms by (simp add: Iterator_seekLast_def next_prefix_spec [OF assms])
  then show ?thesis
    by (simp only: seek_prev_or_last)
qed

lemma successor_bounds:
  assumes "P \<noteq> replicate (length P) (CHR 0xFF)"
  shows "\<forall>k. prefix P k \<longrightarrow> k < spec_successor P"
    and "\<forall>k k'. k < spec_successor P \<longrightarrow> prefix P k' \<longrightarrow> k' \<le> k \<longrightarrow> prefix P k"
proof -
  obtain q c m where P: "P = q @ c # replicate m (CHR 0xFF)" and c: "c \<noteq> CHR 0xFF"
    using not_all_ff_decomp [OF assms] by blast
  have lt: "(of_char c :: nat) < 255" by (rule not_ff_less [OF c])
  have s: "spec_successor P = q @ [char_of (Suc (of_char c))]"
    unfolding P by (rule spec_successor_inc [OF lt])
  show "\<forall>k. prefix P k \<longrightarrow> k < spec_successor P"
    unfolding s using succ_upper [OF lt] P by blast
  show "\<forall>k k'. k < spec_successor P \<longrightarrow> prefix P k' \<longrightarrow> k' \<le> k \<longrightarrow> prefix P k"
  proof (intro allI impI)
    fix k k' assume a: "k < spec_successor P" "prefix P k'" "k' \<le> k"
    have "P \<le> k" using a(2,3) prefix_imp_le order_trans by blast
    show "prefix P k"
    proof (rule ccontr)
      assume "\<not> prefix P k"
      then have "q @ [char_of (Suc (of_char c))] \<le> k"
        using succ_least [OF lt, of q m k] \<open>P \<le> k\<close> P by simp
      with a(1) s show False by simp
    qed
  qed
qed

text \<open>
  Claim C3.  On a store sorted by key and for every prefix \<open>P\<close> (the empty one
  included), \<open>seekLast()\<close> of an iterator with prefix \<open>P\<close> returns, and afterwards
  \<open>valid()\<close> is true exactly when some stored key starts with \<open>P\<close>; in that case the
  cursor is on a stored key that starts with \<open>P\<close> and is at least every stored key that
  starts with \<open>P\<close>.
\<close>

theorem seekLast_lands_on_last_key_of_prefix:
  assumes "store_sorted es"
  shows "\<exists>it'. Iterator_seekLast
             \<lparr>it_impl = \<lparr>c_entries = es, c_pos = p0\<rparr>, it_prefix = Some P, it_keys_only = ko\<rparr> = Inr it'
           \<and> Iterator_valid it' = Inr (\<exists>k \<in> fst ` set es. prefix P k)
           \<and> ((\<exists>k \<in> fst ` set es. prefix P k) \<longrightarrow>
                (\<exists>K. c_key (it_impl it') = Inr K \<and> K \<in> fst ` set es \<and> prefix P K
                     \<and> (\<forall>k \<in> fst ` set es. prefix P k \<longrightarrow> k \<le> K)))"
proof -
  let ?it = "\<lparr>it_impl = \<lparr>c_entries = es, c_pos = p0\<rparr>, it_prefix = Some P, it_keys_only = ko\<rparr>"
  have p: "pfx_of ?it = P" by (simp add: pfx_of_def)
  show ?thesis
  proof (cases "P = replicate (length P) (CHR 0xFF)")
    case True
    have up: "\<forall>k k'. True \<longrightarrow> prefix P k' \<longrightarrow> k' \<le> k \<longrightarrow> prefix P k"
      using all_ff_upward [of "length P"] True by metis
    have dc: "\<forall>a b :: string. a < b \<longrightarrow> True \<longrightarrow> True" and inB: "\<forall>k. prefix P k \<longrightarrow> True"
      by simp_all
    note v = valid_last_pos [where B = "\<lambda>k. True", OF assms dc inB up p]
    show ?thesis
      using v seekLast_all_ff [OF True, of es p0 ko] by blast
  next
    case False
    note b = successor_bounds [OF False]
    have dc: "\<forall>a b. a < b \<longrightarrow> b < spec_successor P \<longrightarrow> a < spec_successor P"
      by auto
    note v = valid_last_pos [where B = "\<lambda>k. k < spec_successor P", OF assms dc b(1) b(2) p]
    show ?thesis
      using v seekLast_successor [OF False, of es p0 ko] by blast
  qed
qed

theorem seekLast_lands_on_last_key_of_prefix_witness:
  "store_sorted [(''a'', ''0''), (''ns/x'', ''1''), (''ns/y'', ''2''), (''nt'', ''3'')]
   \<and> (\<exists>it'. Iterator_seekLast
         \<lparr>it_impl = \<lparr>c_entries = [(''a'', ''0''), (''ns/x'', ''1''), (''ns/y'', ''2''), (''nt'', ''3'')],
                      c_pos = None\<rparr>,
            it_prefix = Some ''ns/'', it_keys_only = False\<rparr> = Inr it'
        \<and> Iterator_valid it' = Inr True
        \<and> (\<exists>K. c_key (it_impl it') = Inr K \<and> prefix ''ns/'' K \<and> ''ns/x'' \<le> K \<and> ''ns/y'' \<le> K))"
proof -
  let ?es = "[(''a'', ''0''), (''ns/x'', ''1''), (''ns/y'', ''2''), (''nt'', ''3'')]"
  have s: "store_sorted ?es"
    by (simp add: store_sorted_def)
  have ex: "\<exists>k \<in> fst ` set ?es. prefix ''ns/'' k"
    by simp
  from seekLast_lands_on_last_key_of_prefix [OF s, of None "''ns/''" False]
  obtain it' where
    1: "Iterator_seekLast \<lparr>it_impl = \<lparr>c_entries = ?es, c_pos = None\<rparr>,
            it_prefix = Some ''ns/'', it_keys_only = False\<rparr> = Inr it'"
    and 2: "Iterator_valid it' = Inr (\<exists>k \<in> fst ` set ?es. prefix ''ns/'' k)"
    and 3: "(\<exists>k \<in> fst ` set ?es. prefix ''ns/'' k) \<longrightarrow>
                (\<exists>K. c_key (it_impl it') = Inr K \<and> K \<in> fst ` set ?es \<and> prefix ''ns/'' K
                     \<and> (\<forall>k \<in> fst ` set ?es. prefix ''ns/'' k \<longrightarrow> k \<le> K))"
    by blast
  from 2 ex have v: "Iterator_valid it' = Inr True" by simp
  from 3 ex obtain K where k: "c_key (it_impl it') = Inr K" "prefix ''ns/'' K"
    and m: "\<forall>k \<in> fst ` set ?es. prefix ''ns/'' k \<longrightarrow> k \<le> K"
    by blast
  have "''ns/x'' \<in> fst ` set ?es" "prefix ''ns/'' ''ns/x''"
    and "''ns/y'' \<in> fst ` set ?es" "prefix ''ns/'' ''ns/y''"
    by simp_all
  with m have "''ns/x'' \<le> K" "''ns/y'' \<le> K" by blast+
  with s 1 v k show ?thesis by blast
qed

subsection \<open>The successor computation is the one the specification describes\<close>

lemma next_prefix_example: "next_prefix [CHR 0x01, CHR 0x02] = Inr [CHR 0x01, CHR 0x03]"
  by code_simp

text \<open>
  Claim C4.  For every prefix that does not consist of \<open>0xFF\<close> bytes only, the successor
  that \<open>seekLast\<close> computes through hexadecimal strings is the one of the
  specification, \<open>spec_successor\<close>: the bytes read as a big-endian integer, plus one,
  written on the same number of bytes, trailing zero bytes stripped; and \<open>seekLast\<close>
  seeks to it, steps back when the seek is valid and seeks to the last key otherwise.
  For the prefix \<open>[0x01, 0x02]\<close> the successor is \<open>[0x01, 0x03]\<close>.  For a prefix of
  \<open>0xFF\<close> bytes only no successor is computed: \<open>seekLast\<close> is the seek of the native
  cursor to the last key of the store.
\<close>

theorem next_prefix_big_endian_successor:
  "(P \<noteq> replicate (length P) (CHR 0xFF) \<longrightarrow>
      next_prefix P = Inr (spec_successor P)
      \<and> Iterator_seekLast \<lparr>it_impl = c, it_prefix = Some P, it_keys_only = ko\<rparr>
          = (let ref = c_seek (spec_successor P) c
             in if c_valid ref
                then (case c_prev ref of
                        Inl e \<Rightarrow> Inl e
                      | Inr ref \<Rightarrow> Inr \<lparr>it_impl = ref, it_prefix = Some P, it_keys_only = ko\<rparr>)
                else Inr \<lparr>it_impl = c_seekLast ref, it_prefix = Some P, it_keys_only = ko\<rparr>))
   \<and> next_prefix [CHR 0x01, CHR 0x02] = Inr [CHR 0x01, CHR 0x03]
   \<and> spec_successor [CHR 0x01, CHR 0x02] = [CHR 0x01, CHR 0x03]
   \<and> (P = replicate (length P) (CHR 0xFF) \<longrightarrow>
        Iterator_seekLast \<lparr>it_impl = c, it_prefix = Some P, it_keys_only = ko\<rparr>
          = Inr \<lparr>it_impl = c_seekLast c, it_prefix = Some P, it_keys_only = ko\<rparr>)"
proof -
  have a: "P \<noteq> replicate (length P) (CHR 0xFF) \<longrightarrow>
      next_prefix P = Inr (spec_successor P)
      \<and> Iterator_seekLast \<lparr>it_impl = c, it_prefix = Some P, it_keys_only = ko\<rparr>
          = (let ref = c_seek (spec_successor P) c
             in if c_valid ref
                then (case c_prev ref of
                        Inl e \<Rightarrow> Inl e
                      | Inr ref \<Rightarrow> Inr \<lparr>it_impl = ref, it_prefix = Some P, it_keys_only = ko\<rparr>)
                else Inr \<lparr>it_impl = c_seekLast ref, it_prefix = Some P, it_keys_only = ko\<rparr>)"
    by (simp add: Iterator_seekLast_def next_prefix_spec Let_def split: sum.splits)
  have b: "next_prefix [CHR 0x01, CHR 0x02] = Inr [CHR 0x01, CHR 0x03]"
    by (rule next_prefix_example)
  have "[CHR 0x01, CHR 0x02] \<noteq> replicate (length [CHR 0x01, CHR 0x02]) (CHR 0xFF)"
    by simp
  then have "next_prefix [CHR 0x01, CHR 0x02] = Inr (spec_successor [CHR 0x01, CHR 0x02])"
    by (rule next_prefix_spec)
  with b have c: "spec_successor [CHR 0x01, CHR 0x02] = [CHR 0x01, CHR 0x03]"
    by simp
  have d: "P = replicate (length P) (CHR 0xFF) \<longrightarrow>
        Iterator_seekLast \<lparr>it_impl = c, it_prefix = Some P, it_keys_only = ko\<rparr>
          = Inr \<lparr>it_impl = c_seekLast c, it_prefix = Some P, it_keys_only = ko\<rparr>"
    by (simp add: Iterator_seekLast_def)
  from a b c d show ?thesis by blast
qed

theorem next_prefix_big_endian_successor_witness:
  "''ns/'' \<noteq> replicate (length ''ns/'') (CHR 0xFF)
   \<and> next_prefix ''ns/'' = Inr (spec_successor ''ns/'')
   \<and> [CHR 0xFF, CHR 0xFF] = replicate (length [CHR 0xFF, CHR 0xFF]) (CHR 0xFF)
   \<and> Iterator_seekLast
        \<lparr>it_impl = \<lparr>c_entries = [(''a'', ''1''), (''b'', ''2'')], c_pos = None\<rparr>,
           it_prefix = Some [CHR 0xFF, CHR 0xFF], it_keys_only = False\<rparr>
      = Inr \<lparr>it_impl = \<lparr>c_entries = [(''a'', ''1''), (''b'', ''2'')], c_pos = Some 1\<rparr>,
               it_prefix = Some [CHR 0xFF, CHR 0xFF], it_keys_only = False\<rparr>"
  using next_prefix_big_endian_successor [of "''ns/''"]
    next_prefix_big_endian_successor
      [of "[CHR 0xFF, CHR 0xFF]" "\<lparr>c_entries = [(''a'', ''1''), (''b'', ''2'')], c_pos = None\<rparr>" False]
  by (simp add: c_seekLast_def)

section \<open>\<open>range\<close>\<close>

lemma not_past_end_iff:
  "\<not> past_end it end_key end_inclusive e \<longleftrightarrow>
     (case end_key of
        None \<Rightarrow> True
      | Some ek \<Rightarrow>
          if end_inclusive then drop (length (pfx_of it)) (fst e) \<le> ek
          else drop (length (pfx_of it)) (fst e) < ek)"
  by (auto simp: past_end_def split: option.splits)

lemma in_loop_antitone:
  fixes a b :: "string \<times> string"
  assumes "P \<le> fst a" and "fst a < fst b"
    and "prefix P (fst b) \<and> \<not> past_end it end_key end_inclusive b" and "pfx_of it = P"
  shows "prefix P (fst a) \<and> \<not> past_end it end_key end_inclusive a"
proof -
  have pa: "prefix P (fst a)"
    using assms(1,2,3) prefix_convex [of P "fst b" "fst a"] by simp
  then obtain ra where ra: "fst a = P @ ra" by (auto simp: prefix_def)
  from assms(3) obtain rb where rb: "fst b = P @ rb" by (auto simp: prefix_def)
  from assms(2) ra rb have lt: "ra < rb" by (simp add: append_less_cancel)
  have "\<not> past_end it end_key end_inclusive a"
    using assms(3) lt
    by (cases end_key) (auto simp: not_past_end_iff assms(4) ra rb)
  with pa show ?thesis ..
qed

lemma scan_sorted_strict:
  assumes "store_sorted es"
    and "\<forall>a b. K \<le> fst a \<longrightarrow> fst a < fst b \<longrightarrow> Q b \<longrightarrow> Q a"
  shows "takeWhile Q (drop (length (takeWhile (\<lambda>e. fst e \<le> K) es)) es)
         = filter (\<lambda>e. K < fst e \<and> Q e) es"
proof -
  have "sorted_wrt (\<lambda>a b. fst b \<le> K \<longrightarrow> fst a \<le> K) es"
    using assms(1) unfolding store_sorted_fst
    by (rule sorted_wrt_mono_rel [rotated]) auto
  then have "dropWhile (\<lambda>e. fst e \<le> K) es = filter (\<lambda>e. \<not> fst e \<le> K) es"
    by (rule dropWhile_filter_sorted)
  then have d: "drop (length (takeWhile (\<lambda>e. fst e \<le> K) es)) es = filter (\<lambda>e. K < fst e) es"
    by (simp add: dropWhile_eq_drop [symmetric] not_le)
  let ?xs = "filter (\<lambda>e. K < fst e) es"
  have "sorted_wrt (\<lambda>a b. fst a < fst b) ?xs"
    using assms(1) unfolding store_sorted_fst by (rule sorted_wrt_filter)
  then have "sorted_wrt (\<lambda>a b. Q b \<longrightarrow> Q a) ?xs"
  proof (rule sorted_wrt_mono_rel [rotated])
    fix a b :: "string \<times> string"
    assume "a \<in> set ?xs" and lt: "fst a < fst b"
    then have "K \<le> fst a" by auto
    with assms(2) lt show "Q b \<longrightarrow> Q a" by blast
  qed
  then have "takeWhile Q ?xs = filter Q ?xs"
    by (rule takeWhile_filter_sorted)
  then show ?thesis
    by (simp add: d conj_commute)
qed

lemma scan_sorted_all:
  assumes "store_sorted es"
    and "\<forall>a b. K \<le> fst a \<longrightarrow> fst a < fst b \<longrightarrow> Q b \<longrightarrow> Q a"
  shows "takeWhile Q (drop (length (takeWhile (\<lambda>e. fst e < K) es)) es)
         = filter (\<lambda>e. K \<le> fst e \<and> Q e) es"
  using scan_sorted [OF assms(1), of K Q] assms(2) by blast

text \<open>Where the entries up to the key \<open>K\<close> end, given where those below \<open>K\<close> end.\<close>

lemma length_takeWhile_le_key:
  fixes es :: "(string \<times> string) list"
  assumes "store_sorted es"
    and "n = length (takeWhile (\<lambda>e. fst e < K) es)" and "n < length es"
  shows "length (takeWhile (\<lambda>e. fst e \<le> K) es) = (if fst (es ! n) = K then Suc n else n)"
proof -
  have below: "\<And>i. i < n \<Longrightarrow> fst (es ! i) < K"
  proof -
    fix i assume i: "i < n"
    then have "takeWhile (\<lambda>e. fst e < K) es ! i = es ! i"
      unfolding assms(2) by (rule takeWhile_nth)
    moreover have "takeWhile (\<lambda>e. fst e < K) es ! i \<in> set (takeWhile (\<lambda>e. fst e < K) es)"
      using i unfolding assms(2) by simp
    ultimately show "fst (es ! i) < K"
      by (auto dest: set_takeWhileD)
  qed
  have ge: "\<not> fst (es ! n) < K"
    using assms(3) unfolding assms(2) by (rule nth_length_takeWhile)
  show ?thesis
  proof (cases "fst (es ! n) = K")
    case True
    have "takeWhile (\<lambda>e. fst e \<le> K) es = take (Suc n) es"
    proof (rule takeWhile_eq_take_P_nth)
      fix i assume "i < Suc n" "i < length es"
      then show "fst (es ! i) \<le> K"
        using below [of i] True by (cases "i = n") auto
    next
      assume s: "Suc n < length es"
      from assms(1) [unfolded store_sorted_fst] lessI s
      have "fst (es ! n) < fst (es ! Suc n)"
        by (rule sorted_wrt_nth_less)
      with True show "\<not> fst (es ! Suc n) \<le> K" by simp
    qed
    with True assms(3) show ?thesis by simp
  next
    case False
    have "takeWhile (\<lambda>e. fst e \<le> K) es = take n es"
    proof (rule takeWhile_eq_take_P_nth)
      fix i assume "i < n" "i < length es"
      then show "fst (es ! i) \<le> K"
        using below [of i] by simp
    next
      show "\<not> fst (es ! n) \<le> K"
        using ge False by auto
    qed
    with False assms(3) show ?thesis by simp
  qed
qed

lemma range_start_none:
  "c_entries (it_impl it) = es \<Longrightarrow>
   range_start it None start_inclusive
   = Inr (at_pos it es (length (takeWhile (\<lambda>e. fst e < pfx_of it) es)))"
  by (simp add: range_start_def Iterator_seekFirst_at)

lemma range_start_inclusive:
  "c_entries (it_impl it) = es \<Longrightarrow>
   range_start it (Some sk) True
   = Inr (at_pos it es (length (takeWhile (\<lambda>e. fst e < pfx_of it @ sk) es)))"
  by (simp add: range_start_def Iterator_seek_at)

lemma range_start_exclusive:
  assumes "c_entries (it_impl it) = es"
    and "n = length (takeWhile (\<lambda>e. fst e < pfx_of it @ sk) es)"
  shows "range_start it (Some sk) False =
     (if n < length es
      then Inr (at_pos it es (if drop (length (pfx_of it)) (fst (es ! n)) = sk then Suc n else n))
      else Inl InvalidCursor)"
proof -
  have s: "Iterator_seek it sk = at_pos it es n"
    unfolding assms(2) by (rule Iterator_seek_at [OF assms(1)])
  show ?thesis
    by (simp add: range_start_def s Iterator_key_at it_impl_at_pos c_next_at at_pos_update)
qed

lemma takeWhile_drop_Nil:
  "(i < length xs \<Longrightarrow> \<not> Q (xs ! i)) \<Longrightarrow> takeWhile Q (drop i xs) = []"
proof (cases "i < length xs")
  case True
  assume "i < length xs \<Longrightarrow> \<not> Q (xs ! i)"
  with True have "\<not> Q (xs ! i)" by simp
  moreover from True have "drop i xs = xs ! i # drop (Suc i) xs"
    by (simp add: Cons_nth_drop_Suc)
  ultimately show ?thesis by simp
next
  case False
  then show ?thesis by simp
qed

text \<open>
  With an exclusive start, from wherever the positioning code leaves the cursor, the
  loop collects the entries above the start key.
\<close>

lemma scan_after_exclusive_start:
  fixes es :: "(string \<times> string) list"
  assumes sorted: "store_sorted es"
    and anti: "\<forall>a b. P @ sk \<le> fst a \<longrightarrow> fst a < fst b \<longrightarrow> Q b \<longrightarrow> Q a"
    and Qp: "\<forall>e. Q e \<longrightarrow> prefix P (fst e)"
    and n: "n = length (takeWhile (\<lambda>e. fst e < P @ sk) es)" "n < length es"
  shows "takeWhile Q (drop (if drop (length P) (fst (es ! n)) = sk then Suc n else n) es)
       = filter (\<lambda>e. P @ sk < fst e \<and> Q e) es"
proof -
  let ?K = "P @ sk"
  let ?m = "length (takeWhile (\<lambda>e. fst e \<le> ?K) es)"
  note m = length_takeWhile_le_key [OF sorted n]
  note strict = scan_sorted_strict [OF sorted anti]
  have ge: "?K \<le> fst (es ! n)"
    using nth_length_takeWhile [of "\<lambda>e. fst e < ?K" es] n by auto
  show ?thesis
  proof (cases "fst (es ! n) = ?K")
    case True
    then have "drop (length P) (fst (es ! n)) = sk" by simp
    with True m strict show ?thesis by simp
  next
    case False
    show ?thesis
    proof (cases "drop (length P) (fst (es ! n)) = sk")
      case neq: False
      with False m strict show ?thesis by simp
    next
      case True
      have np: "\<not> prefix P (fst (es ! n))"
      proof
        assume "prefix P (fst (es ! n))"
        then have "fst (es ! n) = P @ drop (length P) (fst (es ! n))"
          by (auto simp: prefix_def)
        with True False show False by simp
      qed
      then have nq: "\<not> Q (es ! n)" using Qp by blast
      have rhs: "filter (\<lambda>e. ?K < fst e \<and> Q e) es = []"
      proof -
        have "takeWhile Q (drop n es) = []"
          using nq by (intro takeWhile_drop_Nil) simp
        with False m strict show ?thesis by simp
      qed
      have lhs: "takeWhile Q (drop (Suc n) es) = []"
      proof (rule takeWhile_drop_Nil)
        assume s: "Suc n < length es"
        from sorted [unfolded store_sorted_fst] lessI s
        have "fst (es ! n) < fst (es ! Suc n)"
          by (rule sorted_wrt_nth_less)
        with anti ge nq show "\<not> Q (es ! Suc n)" by blast
      qed
      from True lhs rhs show ?thesis by simp
    qed
  qed
qed

text \<open>
  What \<open>range\<close> yields on an iterator that is not keys-only, whenever the positioning
  does not read an invalid cursor (no start key, an inclusive start, or a seek that lands
  on an entry): exactly the rows within the bounds, in the order of the store.
\<close>

lemma Iterator_range_rows:
  assumes sorted: "store_sorted es"
    and es: "c_entries (it_impl it) = es"
    and rows: "\<not> it_keys_only it"
    and lands: "start_key = None \<or> start_inclusive
                \<or> (\<exists>e \<in> set es. pfx_of it @ the start_key \<le> fst e)"
  shows "Iterator_range it start_key end_key start_inclusive end_inclusive
       = (map (item_of it)
            (filter (in_range it start_key end_key start_inclusive end_inclusive) es), None)"
proof -
  let ?P = "pfx_of it"
  let ?Q = "\<lambda>e. prefix ?P (fst e) \<and> \<not> past_end it end_key end_inclusive e"
  have anti: "\<And>K. ?P \<le> K \<Longrightarrow> \<forall>a b. K \<le> fst a \<longrightarrow> fst a < fst b \<longrightarrow> ?Q b \<longrightarrow> ?Q a"
    using in_loop_antitone [where P = ?P and it = it] order_trans by blast
  have Qp: "\<forall>e. ?Q e \<longrightarrow> prefix ?P (fst e)" by simp
  show ?thesis
  proof (cases start_key)
    case None
    have "takeWhile ?Q (drop (length (takeWhile (\<lambda>e. fst e < ?P) es)) es)
        = filter (\<lambda>e. ?P \<le> fst e \<and> ?Q e) es"
      by (rule scan_sorted_all [OF sorted anti]) simp
    also have "\<dots> = filter (in_range it start_key end_key start_inclusive end_inclusive) es"
      by (rule filter_cong)
         (auto simp: in_range_def None not_past_end_iff dest: prefix_imp_le)
    finally show ?thesis
      by (simp add: Iterator_range_def None range_start_none [OF es] range_loop_at [OF rows])
  next
    case (Some sk)
    have le: "?P \<le> ?P @ sk"
      using append_le_cancel [of ?P "[]" sk] by simp
    have strip: "\<And>e. prefix ?P (fst e) \<Longrightarrow> fst e = ?P @ drop (length ?P) (fst e)"
      by (auto simp: prefix_def)
    show ?thesis
    proof (cases start_inclusive)
      case True
      have "takeWhile ?Q (drop (length (takeWhile (\<lambda>e. fst e < ?P @ sk) es)) es)
          = filter (\<lambda>e. ?P @ sk \<le> fst e \<and> ?Q e) es"
        by (rule scan_sorted_all [OF sorted anti [OF le]])
      also have "\<dots> = filter (in_range it start_key end_key start_inclusive end_inclusive) es"
      proof (rule filter_cong [OF refl])
        fix e
        show "(?P @ sk \<le> fst e \<and> ?Q e)
            = in_range it start_key end_key start_inclusive end_inclusive e"
        proof (cases "prefix ?P (fst e)")
          case False
          then show ?thesis by (simp add: in_range_def)
        next
          case p: True
          have "?P @ sk \<le> fst e \<longleftrightarrow> sk \<le> drop (length ?P) (fst e)"
            using strip [OF p] append_le_cancel [of ?P sk "drop (length ?P) (fst e)"] by simp
          then show ?thesis
            by (simp add: in_range_def Some True p not_past_end_iff)
        qed
      qed
      finally show ?thesis
        by (simp add: Iterator_range_def Some True range_start_inclusive [OF es]
            range_loop_at [OF rows])
    next
      case False
      let ?n = "length (takeWhile (\<lambda>e. fst e < ?P @ sk) es)"
      from lands Some False obtain e where e: "e \<in> set es" "?P @ sk \<le> fst e"
        by auto
      have n: "?n < length es"
      proof (rule ccontr)
        assume "\<not> ?n < length es"
        then have "?n = length es"
          using length_takeWhile_le [of "\<lambda>e. fst e < ?P @ sk" es] by simp
        then have "takeWhile (\<lambda>e. fst e < ?P @ sk) es = es"
          by (metis takeWhile_eq_take take_all order_refl)
        then have "\<forall>x \<in> set es. fst x < ?P @ sk"
          by (simp add: takeWhile_eq_all_conv)
        with e show False by auto
      qed
      let ?j = "if drop (length ?P) (fst (es ! ?n)) = sk then Suc ?n else ?n"
      have "takeWhile ?Q (drop ?j es) = filter (\<lambda>e. ?P @ sk < fst e \<and> ?Q e) es"
        by (rule scan_after_exclusive_start [OF sorted anti [OF le] Qp refl n])
      also have "\<dots> = filter (in_range it start_key end_key start_inclusive end_inclusive) es"
      proof (rule filter_cong [OF refl])
        fix e
        show "(?P @ sk < fst e \<and> ?Q e)
            = in_range it start_key end_key start_inclusive end_inclusive e"
        proof (cases "prefix ?P (fst e)")
          case False
          then show ?thesis by (simp add: in_range_def)
        next
          case p: True
          have "?P @ sk < fst e \<longleftrightarrow> sk < drop (length ?P) (fst e)"
            using strip [OF p] append_less_cancel [of ?P sk "drop (length ?P) (fst e)"] by simp
          then show ?thesis
            by (simp add: in_range_def Some False p not_past_end_iff)
        qed
      qed
      finally show ?thesis
        using n
        by (simp add: Iterator_range_def Some False range_start_exclusive [OF es refl]
            range_loop_at [OF rows])
    qed
  qed
qed

text \<open>
  And what it does otherwise: with an exclusive start and no stored key at or after the
  start key, it yields nothing and ends with the error of reading an invalid cursor.
\<close>

lemma Iterator_range_exclusive_past_end:
  assumes "c_entries (it_impl it) = es"
    and "\<forall>e \<in> set es. fst e < pfx_of it @ sk"
  shows "Iterator_range it (Some sk) end_key False end_inclusive = ([], Some InvalidCursor)"
proof -
  have tw: "takeWhile (\<lambda>e. fst e < pfx_of it @ sk) es = es"
    using assms(2) by (simp add: takeWhile_eq_all_conv)
  have "length (takeWhile (\<lambda>e. fst e < pfx_of it @ sk) es) = length es"
    by (simp only: tw)
  then have "\<not> length (takeWhile (\<lambda>e. fst e < pfx_of it @ sk) es) < length es"
    by linarith
  then show ?thesis
    by (simp add: Iterator_range_def range_start_exclusive [OF assms(1) refl])
qed


text \<open>
  Claim C9 at a store and bounds where it fails.  The store holds the key \<open>a\<close> only and
  \<open>range\<close> is called with \<open>start_key = b\<close> and \<open>start_inclusive = False\<close>.  No stored
  key satisfies the bounds, so the claim asks for the empty sequence, ended normally.
  The seek to \<open>b\<close> leaves the cursor invalid, and \<open>range\<close> then reads \<open>self.key()\<close>
  without asking \<open>valid()\<close>: the generator ends with the error of the engine.
\<close>

theorem range_exclusive_start_past_end_raises:
  "Iterator_range
     \<lparr>it_impl = \<lparr>c_entries = [(''a'', ''1'')], c_pos = None\<rparr>,
        it_prefix = None, it_keys_only = False\<rparr>
     (Some ''b'') None False False
   = ([], Some InvalidCursor)"
  by (simp add: Iterator_range_def range_start_def Iterator_seek_def c_seek_def
      Iterator_key_def c_key_def)

text \<open>
  Claim C10 at the same input: after the seek to \<open>b\<close> the cursor is not valid, and
  the positioning code of \<open>range\<close> evaluates \<open>key()\<close> on it all the same.
\<close>

theorem range_start_reads_key_of_invalid_cursor:
  "\<not> c_valid (it_impl (Iterator_seek
       \<lparr>it_impl = \<lparr>c_entries = [(''a'', ''1'')], c_pos = None\<rparr>,
          it_prefix = None, it_keys_only = False\<rparr> ''b''))
   \<and> Iterator_key (Iterator_seek
       \<lparr>it_impl = \<lparr>c_entries = [(''a'', ''1'')], c_pos = None\<rparr>,
          it_prefix = None, it_keys_only = False\<rparr> ''b'') = Inl InvalidCursor
   \<and> range_start
       \<lparr>it_impl = \<lparr>c_entries = [(''a'', ''1'')], c_pos = None\<rparr>,
          it_prefix = None, it_keys_only = False\<rparr> (Some ''b'') False
     = Inl InvalidCursor"
  by (simp add: range_start_def Iterator_seek_def c_seek_def Iterator_key_def c_key_def
      c_valid_def)

text \<open>The example of the specification: keys \<open>a\<close> to \<open>e\<close>, from \<open>b\<close> inclusive to \<open>d\<close> exclusive.\<close>

lemma range_example:
  "Iterator_range
     \<lparr>it_impl = \<lparr>c_entries = [(''a'', ''1''), (''b'', ''2''), (''c'', ''3''), (''d'', ''4''),
                               (''e'', ''5'')], c_pos = None\<rparr>,
        it_prefix = None, it_keys_only = False\<rparr>
     (Some ''b'') (Some ''d'') True False
   = ([Row ''b'' ''2'', Row ''c'' ''3''], None)"
  by code_simp

end
